theory Spec2Isabelle
  imports Complex_Main "HOL-Library.Sublist" "HOL-Library.Log_Nat"
begin

section \<open>Characters and strings\<close>

text \<open>
  A Python \<open>str\<close> is a sequence of code points. The model takes the code points below 256:
  a \<^typ>\<open>char\<close> is one code point, \<^term>\<open>of_char c\<close> its number, and a \<^typ>\<open>string\<close> a
  Python string all of whose code points are below 256. The character classes are Python's
  own on that range: \<open>str.isspace\<close> (used by \<open>str.split()\<close>, \<open>str.strip()\<close> and the
  regular expression classes \<open>\s\<close>, \<open>\S\<close>) and \<open>str.isalnum\<close> (used by \<open>\w\<close>).
\<close>

definition isspace :: "char \<Rightarrow> bool" where
  "isspace c =
     (let n = (of_char c :: nat) in
      (9 \<le> n \<and> n \<le> 13) \<or> (28 \<le> n \<and> n \<le> 32) \<or> n = 133 \<or> n = 160)"

definition isalnum :: "char \<Rightarrow> bool" where
  "isalnum c =
     (let n = (of_char c :: nat) in
      (48 \<le> n \<and> n \<le> 57) \<or> (65 \<le> n \<and> n \<le> 90) \<or> (97 \<le> n \<and> n \<le> 122) \<or>
      n = 170 \<or> n = 178 \<or> n = 179 \<or> n = 181 \<or> n = 185 \<or> n = 186 \<or>
      (188 \<le> n \<and> n \<le> 190) \<or> (192 \<le> n \<and> n \<le> 214) \<or>
      (216 \<le> n \<and> n \<le> 246) \<or> (248 \<le> n \<and> n \<le> 255))"

text \<open>The regular expression classes \<open>\w\<close> and \<open>\S\<close>.\<close>

definition re_word :: "char \<Rightarrow> bool" where
  "re_word c = (isalnum c \<or> c = CHR ''_'')"

definition re_nonspace :: "char \<Rightarrow> bool" where
  "re_nonspace c = (\<not> isspace c)"

text \<open>\<open>str.lower()\<close>: on code points below 256 only the upper-case letters change.\<close>

definition lower_char :: "char \<Rightarrow> char" where
  "lower_char c =
     (let n = (of_char c :: nat) in
      if (65 \<le> n \<and> n \<le> 90) \<or> (192 \<le> n \<and> n \<le> 214) \<or> (216 \<le> n \<and> n \<le> 222)
      then char_of (n + 32) else c)"

definition lower :: "string \<Rightarrow> string" where
  "lower s = map lower_char s"

text \<open>\<open>str.strip()\<close> with no argument: white space is dropped at both ends.\<close>

definition strip :: "string \<Rightarrow> string" where
  "strip s = rev (dropWhile isspace (rev (dropWhile isspace s)))"

text \<open>
  \<open>str.split()\<close> with no argument: the maximal runs of characters that are not white space,
  in order; no empty string is produced.
\<close>

function py_split :: "string \<Rightarrow> string list" where
  "py_split s =
     (case dropWhile isspace s of
        [] \<Rightarrow> []
      | c # r \<Rightarrow> takeWhile re_nonspace (c # r) # py_split (dropWhile re_nonspace (c # r)))"
  by pat_completeness auto
termination
proof (relation "measure length")
  fix s :: string and c r
  assume h: "dropWhile isspace s = c # r"
  have "\<not> isspace c"
    using h by (metis hd_dropWhile list.sel(1) list.distinct(1))
  then have "length (dropWhile re_nonspace (c # r)) \<le> length r"
    by (simp add: re_nonspace_def length_dropWhile_le)
  moreover have "length (c # r) \<le> length s"
    using h length_dropWhile_le[of isspace s] by simp
  ultimately show "(dropWhile re_nonspace (c # r), s) \<in> measure length"
    by simp
qed simp

declare py_split.simps [simp del]

text \<open>\<open>sep.join(xs)\<close>.\<close>

fun py_join :: "string \<Rightarrow> string list \<Rightarrow> string" where
  "py_join sep [] = []"
| "py_join sep [x] = x"
| "py_join sep (x # y # ys) = x @ sep @ py_join sep (y # ys)"

section \<open>Regular expression substitution\<close>

text \<open>
  \<open>re.sub(pattern, '', text)\<close> scans \<open>text\<close> from the left. A matcher gives, for the text
  that starts at the current position, the length of the pattern's match there, or \<open>None\<close>.
  A non-empty match is deleted and the scan resumes behind it; where there is no match
  (or an empty one) the character is kept and the scan moves one position on.
\<close>

fun re_sub :: "(string \<Rightarrow> nat option) \<Rightarrow> string \<Rightarrow> string" where
  "re_sub m [] = []"
| "re_sub m (c # cs) =
     (case m (c # cs) of
        Some (Suc k) \<Rightarrow> re_sub m (drop k cs)
      | _ \<Rightarrow> c # re_sub m cs)"

text \<open>
  A literal followed by a greedy \<open>+\<close> over a character class, with nothing behind it:
  the match is the literal and every following character of the class, at least one.
\<close>

definition lit_then_plus :: "string \<Rightarrow> (char \<Rightarrow> bool) \<Rightarrow> string \<Rightarrow> nat option" where
  "lit_then_plus lit cls s =
     (if take (length lit) s = lit then
        (case takeWhile cls (drop (length lit) s) of
           [] \<Rightarrow> None
         | r \<Rightarrow> Some (length lit + length r))
      else None)"

text \<open>The pattern \<open>http\S+|www\S+|https\S+\<close>: the alternatives are tried in this order.\<close>

definition url_match :: "string \<Rightarrow> nat option" where
  "url_match s =
     (case lit_then_plus ''http'' re_nonspace s of
        Some n \<Rightarrow> Some n
      | None \<Rightarrow>
         (case lit_then_plus ''www'' re_nonspace s of
            Some n \<Rightarrow> Some n
          | None \<Rightarrow> lit_then_plus ''https'' re_nonspace s))"

text \<open>The pattern \<open>@\w+\<close>.\<close>

definition mention_match :: "string \<Rightarrow> nat option" where
  "mention_match s = lit_then_plus ''@'' re_word s"

text \<open>The pattern \<open>#\<close>.\<close>

definition hash_match :: "string \<Rightarrow> nat option" where
  "hash_match s = (if take 1 s = ''#'' then Some 1 else None)"

section \<open>The analyzer\<close>

subsection \<open>clean\_text\<close>

definition clean_text :: "string \<Rightarrow> string" where
  "clean_text text0 =
     (let text1 = re_sub url_match text0;
          text2 = re_sub mention_match text1;
          text3 = re_sub hash_match text2
      in py_join '' '' (py_split text3))"

subsection \<open>Floating point values\<close>

text \<open>
  A finite Python \<open>float\<close> is a rational number, and the model keeps its exact value.
  Comparisons of floats are exact. A decimal literal denotes the double nearest to it, and
  \<open>round(x, ndigits)\<close> returns the double nearest to the decimal that is nearest to \<open>x\<close>
  (ties to the even digit). \<open>nearest_double\<close> is rounding to 53 significant bits, ties to
  even, for values in the range of normal doubles.
\<close>

type_synonym pyfloat = rat

definition round_half_even :: "rat \<Rightarrow> int" where
  "round_half_even x =
     (let f = \<lfloor>x\<rfloor>; d = x - of_int f in
      if d < 1 / 2 then f
      else if 1 / 2 < d then f + 1
      else if even f then f else f + 1)"

text \<open>The binary exponent \<open>\<lfloor>log\<^sub>2 x\<rfloor>\<close> of a positive rational.\<close>

definition ilog2 :: "rat \<Rightarrow> int" where
  "ilog2 x =
     (let (a, b) = quotient_of x;
          d = int (floorlog 2 (nat a)) - int (floorlog 2 (nat b))
      in if 2 powi d \<le> x then d else d - 1)"

definition nearest_double :: "rat \<Rightarrow> pyfloat" where
  "nearest_double x =
     (if x = 0 then 0
      else let u = 2 powi (ilog2 \<bar>x\<bar> - 52)
           in of_int (round_half_even (x / u)) * u)"

definition py_round :: "pyfloat \<Rightarrow> nat \<Rightarrow> pyfloat" where
  "py_round x ndigits =
     nearest_double (of_int (round_half_even (x * 10 ^ ndigits)) / 10 ^ ndigits)"

text \<open>The literals \<open>0.1\<close> and \<open>-0.1\<close> of the thresholds.\<close>

definition float_0_1 :: pyfloat where
  "float_0_1 = nearest_double (1 / 10)"

subsection \<open>analyze\_sentiment\<close>

text \<open>
  The record that \<open>analyze_sentiment\<close> returns: a dictionary with the keys \<open>text\<close>,
  \<open>cleaned_text\<close>, \<open>sentiment\<close>, \<open>polarity\<close> and \<open>subjectivity\<close>.
\<close>

record analysis =
  orig_text :: string
  cleaned_text :: string
  sentiment :: string
  polarity :: pyfloat
  subjectivity :: pyfloat

text \<open>The \<open>if\<close>/\<open>elif\<close>/\<open>else\<close> chain that maps the polarity to the label.\<close>

definition classify :: "pyfloat \<Rightarrow> string" where
  "classify p =
     (if p > float_0_1 then ''Positive''
      else if p < - float_0_1 then ''Negative''
      else ''Neutral'')"

text \<open>
  The scoring backend \<open>TextBlob(cleaned_text).sentiment\<close> is a library outside the
  repository: it is a parameter, a function from the cleaned text to the pair of polarity
  and subjectivity, or to the exception it raises.
\<close>

datatype error = BackendError

type_synonym scorer = "string \<Rightarrow> error + (pyfloat \<times> pyfloat)"

definition analyze_sentiment :: "scorer \<Rightarrow> string \<Rightarrow> error + analysis" where
  "analyze_sentiment score text0 =
     (let cleaned = clean_text text0 in
      case score cleaned of
        Inl e \<Rightarrow> Inl e
      | Inr (pol, subj) \<Rightarrow>
          Inr \<lparr>orig_text = text0,
               cleaned_text = cleaned,
               sentiment = classify pol,
               polarity = py_round pol 3,
               subjectivity = py_round subj 3\<rparr>)"

subsection \<open>analyze\_multiple\<close>

text \<open>The state of a \<open>SentimentAnalyzer\<close> object: the attribute \<open>results\<close>.\<close>

record analyzer =
  results :: "analysis list"

definition init :: analyzer where
  "init = \<lparr>results = []\<rparr>"

text \<open>
  The \<open>for\<close> loop of \<open>analyze_multiple\<close>. Each record is appended to \<open>self.results\<close> as
  soon as it is made; an exception of the backend leaves the loop with the state as it is
  at that moment.
\<close>

fun analyze_loop :: "scorer \<Rightarrow> string list \<Rightarrow> analyzer \<Rightarrow> error option \<times> analyzer" where
  "analyze_loop score [] self = (None, self)"
| "analyze_loop score (t # ts) self =
     (if strip t \<noteq> [] then
        (case analyze_sentiment score t of
           Inl e \<Rightarrow> (Some e, self)
         | Inr result \<Rightarrow> analyze_loop score ts (self\<lparr>results := results self @ [result]\<rparr>))
      else analyze_loop score ts self)"

definition analyze_multiple ::
  "scorer \<Rightarrow> string list \<Rightarrow> analyzer \<Rightarrow> (error + analysis list) \<times> analyzer" where
  "analyze_multiple score texts self =
     (case analyze_loop score texts (self\<lparr>results := []\<rparr>) of
        (Some e, self') \<Rightarrow> (Inl e, self')
      | (None, self') \<Rightarrow> (Inr (results self'), self'))"

subsection \<open>get\_statistics\<close>

record statistics =
  total :: nat
  positive :: nat
  negative :: nat
  neutral :: nat
  positive_pct :: pyfloat
  negative_pct :: pyfloat
  neutral_pct :: pyfloat
  avg_polarity :: pyfloat
  avg_subjectivity :: pyfloat

text \<open>\<open>df['sentiment'].value_counts().get(label, 0)\<close>.\<close>

definition value_count :: "string \<Rightarrow> analysis list \<Rightarrow> nat" where
  "value_count label df = length (filter (\<lambda>r. sentiment r = label) df)"

text \<open>
  The arithmetic on the data frame is pandas' and numpy's: \<open>pct c n\<close> stands for
  \<open>round((c / n) * 100, 1)\<close> on a numpy count, and \<open>mean3 xs\<close> for
  \<open>round(column.mean(), 3)\<close>. Both are parameters.
\<close>

definition get_statistics ::
  "(nat \<Rightarrow> nat \<Rightarrow> pyfloat) \<Rightarrow> (pyfloat list \<Rightarrow> pyfloat) \<Rightarrow> analyzer \<Rightarrow>
     statistics option \<times> analyzer" where
  "get_statistics pct mean3 self =
     (if results self = [] then (None, self)
      else
        let df = results self;
            n = length df
        in (Some \<lparr>total = n,
                   positive = value_count ''Positive'' df,
                   negative = value_count ''Negative'' df,
                   neutral = value_count ''Neutral'' df,
                   positive_pct = pct (value_count ''Positive'' df) n,
                   negative_pct = pct (value_count ''Negative'' df) n,
                   neutral_pct = pct (value_count ''Neutral'' df) n,
                   avg_polarity = mean3 (map polarity df),
                   avg_subjectivity = mean3 (map subjectivity df)\<rparr>,
            self))"

subsection \<open>get\_top\_words\<close>

definition stopwords :: "string list" where
  "stopwords =
     [''the'', ''a'', ''an'', ''and'', ''or'', ''but'', ''in'', ''on'', ''at'', ''to'', ''for'',
      ''of'', ''with'', ''is'', ''was'', ''are'', ''been'', ''be'', ''have'', ''has'', ''had'',
      ''do'', ''does'', ''did'', ''will'', ''would'', ''could'', ''should'', ''may'', ''might'',
      ''i'', ''you'', ''he'', ''she'', ''it'', ''we'', ''they'', ''this'', ''that'', ''these'',
      ''those'']"

text \<open>
  \<open>Counter(words)\<close>: a dictionary from a word to its count, which keeps the order in
  which the words were first inserted. It is an association list in that order.
\<close>

fun counter_add :: "string \<Rightarrow> (string \<times> nat) list \<Rightarrow> (string \<times> nat) list" where
  "counter_add w [] = [(w, 1)]"
| "counter_add w ((k, c) # kvs) =
     (if k = w then (k, c + 1) # kvs else (k, c) # counter_add w kvs)"

definition counter :: "string list \<Rightarrow> (string \<times> nat) list" where
  "counter ws = foldl (\<lambda>acc w. counter_add w acc) [] ws"

text \<open>
  \<open>most_common(n)\<close> is \<open>heapq.nlargest(n, items, key=count)\<close>, that is
  \<open>sorted(items, key=count, reverse=True)[:n]\<close>: a stable sort, so items of equal count
  stay in the order of the dictionary. For \<open>n \<le> 0\<close> the result is empty.
\<close>

definition most_common :: "int \<Rightarrow> (string \<times> nat) list \<Rightarrow> (string \<times> nat) list" where
  "most_common n items = take (nat n) (sort_key (\<lambda>(w, c). - int c) items)"

text \<open>The rows selected by \<open>if sentiment_type: df = df[df['sentiment'] == sentiment_type]\<close>.\<close>

definition select_rows :: "string option \<Rightarrow> analysis list \<Rightarrow> analysis list" where
  "select_rows sentiment_type df =
     (case sentiment_type of
        None \<Rightarrow> df
      | Some t \<Rightarrow> if t = [] then df else filter (\<lambda>r. sentiment r = t) df)"

text \<open>The list \<open>words\<close> of \<open>get_top_words\<close>.\<close>

definition top_words_list :: "string option \<Rightarrow> analysis list \<Rightarrow> string list" where
  "top_words_list sentiment_type df =
     (let all_text = py_join '' '' (map cleaned_text (select_rows sentiment_type df))
      in map lower
           (filter (\<lambda>word. 2 < length word \<and> lower word \<notin> set stopwords)
              (py_split all_text)))"

definition get_top_words ::
  "string option \<Rightarrow> int \<Rightarrow> analyzer \<Rightarrow> (string \<times> nat) list \<times> analyzer" where
  "get_top_words sentiment_type top_n self =
     (if results self = [] then ([], self)
      else (most_common top_n (counter (top_words_list sentiment_type (results self))), self))"

subsection \<open>Auxiliary predicates\<close>

text \<open>
  No suffix of the text is matched by the matcher: \<open>re.sub\<close> with this pattern changes
  nothing.
\<close>

fun unmatched :: "(string \<Rightarrow> nat option) \<Rightarrow> string \<Rightarrow> bool" where
  "unmatched m [] = True"
| "unmatched m (c # cs) = (m (c # cs) = None \<and> unmatched m cs)"

text \<open>
  A token is a non-empty run of characters that are not white space. A matcher is local
  to tokens when no match starts at white space and whether a match starts inside a token
  depends on the rest of the token alone.
\<close>

definition token :: "string \<Rightarrow> bool" where
  "token t = (t \<noteq> [] \<and> (\<forall>x\<in>set t. \<not> isspace x))"

definition token_local :: "(string \<Rightarrow> nat option) \<Rightarrow> bool" where
  "token_local m =
     ((\<forall>c r. isspace c \<longrightarrow> m (c # r) = None) \<and>
      (\<forall>t r. t \<noteq> [] \<and> (\<forall>x\<in>set t. \<not> isspace x) \<and> (r = [] \<or> isspace (hd r)) \<longrightarrow>
             (m (t @ r) = None) = (m t = None)))"

text \<open>The position at which a word first occurs in a list.\<close>

fun first_occ :: "'a list \<Rightarrow> 'a \<Rightarrow> nat" where
  "first_occ [] x = 0"
| "first_occ (y # ys) x = (if y = x then 0 else Suc (first_occ ys x))"

text \<open>A collection of two records, for the examples.\<close>

definition example_state :: analyzer where
  "example_state = \<lparr>results =
     [\<lparr>orig_text = ''The Great product is great http://x.co'', cleaned_text = ''The Great product is great'',
       sentiment = ''Positive'', polarity = 1 / 2, subjectivity = 1 / 2\<rparr>,
      \<lparr>orig_text = ''bad service'', cleaned_text = ''bad service'',
       sentiment = ''Negative'', polarity = - (1 / 2), subjectivity = 1 / 2\<rparr>]\<rparr>"

text \<open>A record is the analysis of its own text under the backend \<open>score\<close>.\<close>

definition scored :: "scorer \<Rightarrow> analysis \<Rightarrow> bool" where
  "scored score r =
     (\<exists>p s. score (cleaned_text r) = Inr (p, s) \<and> cleaned_text r = clean_text (orig_text r) \<and>
            sentiment r = classify p \<and> polarity r = py_round p 3 \<and> subjectivity r = py_round s 3)"

section \<open>Properties\<close>

text \<open>
  Claim C9: \<open>clean_text\<close> maps \<open>Check http://x.co @bob #great\<close> to \<open>Check great\<close>:
  the URL and the mention are removed, the \<open>#\<close> is removed and its word kept, and the
  white space is collapsed.
\<close>

theorem clean_text_example:
  "clean_text ''Check http://x.co @bob #great'' = ''Check great''"
  by code_simp

subsection \<open>The classifier\<close>

lemma float_0_1_value: "float_0_1 = 3602879701896397 / 36028797018963968"
  by code_simp

lemma float_0_1_pos: "0 < float_0_1"
  by (simp add: float_0_1_value)

text \<open>
  Claim C2: the label is \<open>Positive\<close> exactly for a polarity above the threshold \<open>0.1\<close>,
  \<open>Negative\<close> exactly for a polarity below \<open>-0.1\<close>, and \<open>Neutral\<close> exactly in between,
  the two thresholds included. The polarities \<open>0.5\<close>, \<open>-0.5\<close>, \<open>0.05\<close>, \<open>0.1\<close> and
  \<open>-0.1\<close> are labelled Positive, Negative, Neutral, Neutral and Neutral. A decimal
  stands for the double that the literal denotes.
\<close>

theorem classify_thresholds:
  "(classify p = ''Positive'') = (float_0_1 < p) \<and>
   (classify p = ''Negative'') = (p < - float_0_1) \<and>
   (classify p = ''Neutral'') = (- float_0_1 \<le> p \<and> p \<le> float_0_1) \<and>
   classify (1 / 2) = ''Positive'' \<and>
   classify (- (1 / 2)) = ''Negative'' \<and>
   classify (nearest_double (5 / 100)) = ''Neutral'' \<and>
   classify float_0_1 = ''Neutral'' \<and>
   classify (- float_0_1) = ''Neutral''"
proof -
  have a: "(classify p = ''Positive'') = (float_0_1 < p)"
    by (simp add: classify_def)
  have b: "(classify p = ''Negative'') = (p < - float_0_1)"
    using float_0_1_pos by (auto simp: classify_def)
  have c: "(classify p = ''Neutral'') = (- float_0_1 \<le> p \<and> p \<le> float_0_1)"
    using float_0_1_pos by (auto simp: classify_def)
  have d05: "nearest_double (5 / 100) = 3602879701896397 / 72057594037927936"
    by code_simp
  have d: "classify (1 / 2) = ''Positive''" "classify (- (1 / 2)) = ''Negative''"
    "classify (nearest_double (5 / 100)) = ''Neutral''"
    unfolding d05 by (simp_all add: classify_def float_0_1_value)
  have e: "classify float_0_1 = ''Neutral''" "classify (- float_0_1) = ''Neutral''"
    using float_0_1_pos by (simp_all add: classify_def)
  show ?thesis using a b c d e by blast
qed

subsection \<open>The aggregations\<close>

text \<open>
  Claim C6: \<open>get_statistics\<close> returns \<open>None\<close> exactly when the stored collection is
  empty; on a collection that is not empty it returns a statistics value, whose total is
  the number of records.
\<close>

theorem get_statistics_absent:
  "(fst (get_statistics pct mean3 self) = None) = (results self = []) \<and>
   fst (get_statistics pct mean3 (self\<lparr>results := []\<rparr>)) = None \<and>
   (\<exists>s. fst (get_statistics pct mean3 (self\<lparr>results := r # rs\<rparr>)) = Some s \<and>
        total s = Suc (length rs))"
  by (simp add: get_statistics_def Let_def)

text \<open>
  Claim C10: \<open>get_statistics\<close> and \<open>get_top_words\<close>, with any sentiment filter and any
  \<open>top_n\<close>, leave the analyzer's state as it was: the stored collection is the same list
  of the same records.
\<close>

theorem aggregation_read_only:
  "snd (get_statistics pct mean3 self) = self \<and>
   snd (get_top_words sentiment_type top_n self) = self"
  by (simp add: get_statistics_def get_top_words_def Let_def)

subsection \<open>The batch\<close>

lemma analyze_sentiment_Inr:
  "score (clean_text t) = Inr (p, s) \<Longrightarrow>
   analyze_sentiment score t =
     Inr \<lparr>orig_text = t, cleaned_text = clean_text t, sentiment = classify p,
          polarity = py_round p 3, subjectivity = py_round s 3\<rparr>"
  by (simp add: analyze_sentiment_def)

lemma analyze_sentiment_Inl:
  "score (clean_text t) = Inl e \<Longrightarrow> analyze_sentiment score t = Inl e"
  by (simp add: analyze_sentiment_def)

lemma analyze_sentiment_cases:
  "analyze_sentiment score t = Inr r \<Longrightarrow>
   \<exists>p s. score (clean_text t) = Inr (p, s) \<and> orig_text r = t \<and> cleaned_text r = clean_text t \<and>
         sentiment r = classify p \<and> polarity r = py_round p 3 \<and> subjectivity r = py_round s 3"
  by (auto simp: analyze_sentiment_def Let_def split: sum.splits prod.splits)

lemma analyze_loop_ok:
  fixes self :: analyzer
  assumes "\<forall>t\<in>set texts. strip t \<noteq> [] \<longrightarrow> (\<exists>v. score (clean_text t) = Inr v)"
  shows "\<exists>recs. analyze_loop score texts self = (None, self\<lparr>results := results self @ recs\<rparr>) \<and>
           map Inr recs = map (analyze_sentiment score) (filter (\<lambda>t. strip t \<noteq> []) texts)"
  using assms
proof (induction texts arbitrary: self)
  case Nil
  then show ?case by simp
next
  case (Cons t ts)
  show ?case
  proof (cases "strip t \<noteq> []")
    case False
    then show ?thesis using Cons.IH[of self] Cons.prems by simp
  next
    case True
    then obtain p s where sc: "score (clean_text t) = Inr (p, s)"
      using Cons.prems by fastforce
    define r where "r = \<lparr>orig_text = t, cleaned_text = clean_text t, sentiment = classify p,
          polarity = py_round p 3, subjectivity = py_round s 3\<rparr>"
    have ar: "analyze_sentiment score t = Inr r"
      using sc by (simp add: analyze_sentiment_def r_def)
    obtain recs where
      1: "analyze_loop score ts (self\<lparr>results := results self @ [r]\<rparr>) =
            (None, self\<lparr>results := results self @ [r] @ recs\<rparr>)" and
      2: "map Inr recs = map (analyze_sentiment score) (filter (\<lambda>t. strip t \<noteq> []) ts)"
      using Cons.IH[of "self\<lparr>results := results self @ [r]\<rparr>"] Cons.prems by auto
    show ?thesis
      using True ar 1 2 by (intro exI[of _ "r # recs"]) simp
  qed
qed

lemma analyze_loop_fail:
  fixes self :: analyzer
  assumes "\<forall>t\<in>set pre. strip t \<noteq> [] \<longrightarrow> (\<exists>v. score (clean_text t) = Inr v)"
    and "strip t \<noteq> []" and "score (clean_text t) = Inl e"
  shows "\<exists>recs. analyze_loop score (pre @ t # post) self =
             (Some e, self\<lparr>results := results self @ recs\<rparr>) \<and>
           map Inr recs = map (analyze_sentiment score) (filter (\<lambda>t. strip t \<noteq> []) pre)"
  using assms(1)
proof (induction pre arbitrary: self)
  case Nil
  show ?case using assms(2,3) by (simp add: analyze_sentiment_Inl)
next
  case (Cons u us)
  show ?case
  proof (cases "strip u \<noteq> []")
    case False
    then show ?thesis using Cons.IH[of self] Cons.prems by simp
  next
    case True
    then obtain p s where sc: "score (clean_text u) = Inr (p, s)"
      using Cons.prems by fastforce
    define r where "r = \<lparr>orig_text = u, cleaned_text = clean_text u, sentiment = classify p,
          polarity = py_round p 3, subjectivity = py_round s 3\<rparr>"
    have ar: "analyze_sentiment score u = Inr r"
      using sc by (simp add: analyze_sentiment_def r_def)
    obtain recs where
      1: "analyze_loop score (us @ t # post) (self\<lparr>results := results self @ [r]\<rparr>) =
            (Some e, self\<lparr>results := results self @ [r] @ recs\<rparr>)" and
      2: "map Inr recs = map (analyze_sentiment score) (filter (\<lambda>t. strip t \<noteq> []) us)"
      using Cons.IH[of "self\<lparr>results := results self @ [r]\<rparr>"] Cons.prems by auto
    show ?thesis
      using True ar 1 2 by (intro exI[of _ "r # recs"]) simp
  qed
qed

lemma analyze_loop_records:
  fixes self :: analyzer
  assumes "r \<in> set (results (snd (analyze_loop score texts self)))"
  shows "r \<in> set (results self) \<or> scored score r"
  using assms
proof (induction texts arbitrary: self)
  case Nil
  then show ?case by simp
next
  case (Cons t ts)
  show ?case
  proof (cases "strip t \<noteq> []")
    case False
    then show ?thesis using Cons by simp
  next
    case True
    show ?thesis
    proof (cases "analyze_sentiment score t")
      case (Inl e)
      then show ?thesis using True Cons.prems by simp
    next
      case (Inr r')
      then have "r \<in> set (results (self\<lparr>results := results self @ [r']\<rparr>)) \<or> scored score r"
        using True Cons.prems Cons.IH[of "self\<lparr>results := results self @ [r']\<rparr>"] by simp
      moreover have "scored score r'"
        using analyze_sentiment_cases[OF Inr] by (auto simp: scored_def)
      ultimately show ?thesis by auto
    qed
  qed
qed

text \<open>
  Claim C1: when the backend scores every non-blank document of the batch,
  \<open>analyze_multiple\<close> returns exactly one record for each document that is not empty
  after stripping white space, in the order of the input: the records are the analyses of
  those documents, and their \<open>text\<close> fields are the documents themselves. The returned
  list is also the stored collection, whatever was stored before.
\<close>

theorem analyze_multiple_batch:
  fixes self :: analyzer
  assumes "\<forall>t\<in>set texts. strip t \<noteq> [] \<longrightarrow> (\<exists>v. score (clean_text t) = Inr v)"
  shows "\<exists>recs. analyze_multiple score texts self = (Inr recs, self\<lparr>results := recs\<rparr>) \<and>
           length recs = length (filter (\<lambda>t. strip t \<noteq> []) texts) \<and>
           map orig_text recs = filter (\<lambda>t. strip t \<noteq> []) texts \<and>
           map Inr recs = map (analyze_sentiment score) (filter (\<lambda>t. strip t \<noteq> []) texts)"
proof -
  obtain recs where
    1: "analyze_loop score texts (self\<lparr>results := []\<rparr>) = (None, self\<lparr>results := recs\<rparr>)" and
    2: "map Inr recs = map (analyze_sentiment score) (filter (\<lambda>t. strip t \<noteq> []) texts)"
    using analyze_loop_ok[OF assms, of "self\<lparr>results := []\<rparr>"] by auto
  have 3: "length recs = length (filter (\<lambda>t. strip t \<noteq> []) texts)"
    using arg_cong[OF 2, of length] by simp
  have 4: "map orig_text recs = filter (\<lambda>t. strip t \<noteq> []) texts"
  proof (rule nth_equalityI)
    show "length (map orig_text recs) = length (filter (\<lambda>t. strip t \<noteq> []) texts)"
      using 3 by simp
  next
    fix i assume "i < length (map orig_text recs)"
    then have i: "i < length recs" by simp
    have "map Inr recs ! i = map (analyze_sentiment score) (filter (\<lambda>t. strip t \<noteq> []) texts) ! i"
      using 2 by simp
    then have "analyze_sentiment score (filter (\<lambda>t. strip t \<noteq> []) texts ! i) = Inr (recs ! i)"
      using i 3 by simp
    then have "orig_text (recs ! i) = filter (\<lambda>t. strip t \<noteq> []) texts ! i"
      using analyze_sentiment_cases by blast
    then show "map orig_text recs ! i = filter (\<lambda>t. strip t \<noteq> []) texts ! i"
      using i by simp
  qed
  show ?thesis
    using 1 2 3 4 by (simp add: analyze_multiple_def)
qed

text \<open>A batch of three documents, the second blank, on an analyzer that holds a record.\<close>

theorem analyze_multiple_batch_witness:
  "\<exists>recs. analyze_multiple (\<lambda>s. Inr (1 / 2, 1 / 4)) [''I love this!'', '' '', ''It is okay.'']
            \<lparr>results = [\<lparr>orig_text = ''old'', cleaned_text = ''old'', sentiment = ''Neutral'',
                        polarity = 0, subjectivity = 0\<rparr>]\<rparr> =
           (Inr recs, \<lparr>results = recs\<rparr>) \<and>
         length recs = 2 \<and>
         map orig_text recs = [''I love this!'', ''It is okay.'']"
proof -
  have s: "filter (\<lambda>t. strip t \<noteq> []) [''I love this!'', '' '', ''It is okay.''] =
             [''I love this!'', ''It is okay.'']"
    by (simp add: strip_def isspace_def)
  have h: "\<forall>t\<in>set [''I love this!'', '' '', ''It is okay.''].
             strip t \<noteq> [] \<longrightarrow> (\<exists>v. (\<lambda>s. Inr (1 / 2, 1 / 4)) (clean_text t) = Inr v)"
    by blast
  show ?thesis
    using analyze_multiple_batch[OF h,
        of "\<lparr>results = [\<lparr>orig_text = ''old'', cleaned_text = ''old'', sentiment = ''Neutral'',
                        polarity = 0, subjectivity = 0\<rparr>]\<rparr>"]
    unfolding s by (elim exE conjE, intro exI conjI) simp_all
qed

lemma map_Inr_orig_text:
  assumes "map Inr recs = map (analyze_sentiment score) xs"
  shows "map orig_text recs = xs"
proof (rule nth_equalityI)
  have len: "length recs = length xs"
    using arg_cong[OF assms, of length] by simp
  then show "length (map orig_text recs) = length xs" by simp
  fix i assume "i < length (map orig_text recs)"
  then have i: "i < length recs" by simp
  have "map Inr recs ! i = map (analyze_sentiment score) xs ! i"
    using assms by simp
  then have "analyze_sentiment score (xs ! i) = Inr (recs ! i)"
    using i len by simp
  then have "orig_text (recs ! i) = xs ! i"
    using analyze_sentiment_cases by blast
  then show "map orig_text recs ! i = xs ! i"
    using i by simp
qed

text \<open>
  Claim C5, as amended: when the backend raises on a non-blank document and scores the
  non-blank documents before it, \<open>analyze_multiple\<close> propagates the exception, and the
  stored collection is then exactly the list of the records of the non-blank documents
  before the failing one; the collection stored before the call is gone.
\<close>

theorem analyze_multiple_failure:
  fixes self :: analyzer
  assumes "\<forall>u\<in>set pre. strip u \<noteq> [] \<longrightarrow> (\<exists>v. score (clean_text u) = Inr v)"
    and "strip t \<noteq> []" and "score (clean_text t) = Inl e"
  shows "\<exists>recs. analyze_multiple score (pre @ t # post) self = (Inl e, self\<lparr>results := recs\<rparr>) \<and>
           map orig_text recs = filter (\<lambda>u. strip u \<noteq> []) pre \<and>
           map Inr recs = map (analyze_sentiment score) (filter (\<lambda>u. strip u \<noteq> []) pre)"
proof -
  obtain recs where
    1: "analyze_loop score (pre @ t # post) (self\<lparr>results := []\<rparr>) =
          (Some e, self\<lparr>results := recs\<rparr>)" and
    2: "map Inr recs = map (analyze_sentiment score) (filter (\<lambda>u. strip u \<noteq> []) pre)"
    using analyze_loop_fail[OF assms, of post "self\<lparr>results := []\<rparr>"] by auto
  show ?thesis
    using 1 2 map_Inr_orig_text[OF 2]
    by (intro exI[of _ recs]) (simp add: analyze_multiple_def)
qed

lemma clean_text_good: "clean_text ''good'' = ''good''"
  by code_simp

lemma clean_text_bad: "clean_text ''bad'' = ''bad''"
  by code_simp

lemma strip_good_bad: "strip ''good'' \<noteq> []" "strip ''bad'' \<noteq> []"
  by (simp_all add: strip_def isspace_def)

lemma py_round_half: "py_round (1 / 2) 3 = 1 / 2"
  by code_simp

lemma py_round_quarter: "py_round (1 / 4) 3 = 1 / 4"
  by code_simp

lemma classify_half: "classify (1 / 2) = ''Positive''"
  by (simp add: classify_def float_0_1_value)

text \<open>A batch whose second document makes the backend raise.\<close>

theorem analyze_multiple_failure_witness:
  "\<exists>recs. analyze_multiple (\<lambda>s. if s = ''bad'' then Inl BackendError else Inr (1 / 2, 1 / 4))
            [''good'', ''bad'', ''good'']
            \<lparr>results = [\<lparr>orig_text = ''old'', cleaned_text = ''old'', sentiment = ''Neutral'',
                         polarity = 0, subjectivity = 0\<rparr>]\<rparr> =
           (Inl BackendError, \<lparr>results = recs\<rparr>) \<and>
         map orig_text recs = [''good'']"
proof -
  let ?score = "\<lambda>s. if s = ''bad'' then Inl BackendError else Inr (1 / 2 :: rat, 1 / 4 :: rat)"
  have h: "\<forall>u\<in>set [''good'']. strip u \<noteq> [] \<longrightarrow> (\<exists>v. ?score (clean_text u) = Inr v)"
    by (intro ballI impI exI[of _ "(1 / 2, 1 / 4)"]) (simp add: clean_text_good)
  have f: "?score (clean_text ''bad'') = Inl BackendError"
    by (simp add: clean_text_bad)
  have s: "filter (\<lambda>u. strip u \<noteq> []) [''good''] = [''good'']"
    using strip_good_bad by simp
  show ?thesis
    using analyze_multiple_failure[OF h strip_good_bad(2) f, of "[''good'']"
        "\<lparr>results = [\<lparr>orig_text = ''old'', cleaned_text = ''old'', sentiment = ''Neutral'',
                         polarity = 0, subjectivity = 0\<rparr>]\<rparr>"]
    unfolding s by (elim exE conjE, intro exI conjI) simp_all
qed

text \<open>
  Claim C5 as stated fails: with one record stored, a batch whose second document makes
  the backend raise leaves the record of the first document as the stored collection,
  not the one stored before.
\<close>

theorem analyze_multiple_failure_counterexample:
  "fst (analyze_multiple (\<lambda>s. if s = ''bad'' then Inl BackendError else Inr (1 / 2, 1 / 4))
          [''good'', ''bad'']
          \<lparr>results = [\<lparr>orig_text = ''old'', cleaned_text = ''old'', sentiment = ''Neutral'',
                       polarity = 0, subjectivity = 0\<rparr>]\<rparr>) = Inl BackendError \<and>
   results (snd (analyze_multiple (\<lambda>s. if s = ''bad'' then Inl BackendError else Inr (1 / 2, 1 / 4))
          [''good'', ''bad'']
          \<lparr>results = [\<lparr>orig_text = ''old'', cleaned_text = ''old'', sentiment = ''Neutral'',
                       polarity = 0, subjectivity = 0\<rparr>]\<rparr>)) =
     [\<lparr>orig_text = ''good'', cleaned_text = ''good'', sentiment = ''Positive'',
       polarity = 1 / 2, subjectivity = 1 / 4\<rparr>] \<and>
   [\<lparr>orig_text = ''good'', cleaned_text = ''good'', sentiment = ''Positive'',
       polarity = 1 / 2, subjectivity = 1 / 4\<rparr>] \<noteq>
     [\<lparr>orig_text = ''old'', cleaned_text = ''old'', sentiment = ''Neutral'',
                       polarity = 0, subjectivity = 0\<rparr>]"
  using strip_good_bad
  by (simp add: analyze_multiple_def analyze_sentiment_def clean_text_good clean_text_bad
      py_round_half py_round_quarter classify_half Let_def)

text \<open>
  Claim C4, as amended: for every record that \<open>analyze_multiple\<close> stores, the sentiment
  is the classifier applied to the polarity that the backend returned for the record's
  cleaned text, and the stored polarity is that value rounded to three decimals.
\<close>

theorem stored_sentiment_of_backend_polarity:
  fixes self :: analyzer
  assumes "r \<in> set (results (snd (analyze_multiple score texts self)))"
  shows "\<exists>p s. score (cleaned_text r) = Inr (p, s) \<and> sentiment r = classify p \<and>
               polarity r = py_round p 3"
proof -
  have "snd (analyze_multiple score texts self) = snd (analyze_loop score texts (self\<lparr>results := []\<rparr>))"
    by (simp add: analyze_multiple_def split: prod.splits option.splits)
  then have "r \<in> set (results (snd (analyze_loop score texts (self\<lparr>results := []\<rparr>))))"
    using assms by simp
  then have "scored score r"
    using analyze_loop_records[of r score texts "self\<lparr>results := []\<rparr>"] by simp
  then show ?thesis
    by (auto simp: scored_def)
qed

lemma clean_text_x: "clean_text ''x'' = ''x''"
  by code_simp

lemma strip_x: "strip ''x'' \<noteq> []"
  by (simp add: strip_def isspace_def)

lemma py_round_near_threshold: "py_round (411 / 4096) 3 = float_0_1"
  by code_simp

lemma py_round_zero: "py_round 0 3 = 0"
  by code_simp

lemma classify_near_threshold: "classify (411 / 4096) = ''Positive''"
  by (simp add: classify_def float_0_1_value)

lemma classify_threshold: "classify float_0_1 = ''Neutral''"
  using float_0_1_pos by (simp add: classify_def)

lemma near_threshold_results:
  "results (snd (analyze_multiple (\<lambda>s. Inr (411 / 4096, 0)) [''x''] init)) =
     [\<lparr>orig_text = ''x'', cleaned_text = ''x'', sentiment = ''Positive'',
       polarity = float_0_1, subjectivity = 0\<rparr>]"
  using strip_x
  by (simp add: analyze_multiple_def analyze_sentiment_def clean_text_x init_def
      py_round_near_threshold py_round_zero classify_near_threshold Let_def)

text \<open>
  Claim C4 as stated fails: a backend polarity of \<open>411/4096 = 0.100341796875\<close> is above
  the threshold, so the label is \<open>Positive\<close>, while the stored polarity is
  \<open>round(0.100341796875, 3) = 0.1\<close>, which the classifier labels \<open>Neutral\<close>.
\<close>

theorem stored_sentiment_counterexample:
  "results (snd (analyze_multiple (\<lambda>s. Inr (411 / 4096, 0)) [''x''] init)) =
     [\<lparr>orig_text = ''x'', cleaned_text = ''x'', sentiment = ''Positive'',
       polarity = float_0_1, subjectivity = 0\<rparr>] \<and>
   classify (polarity \<lparr>orig_text = ''x'', cleaned_text = ''x'', sentiment = ''Positive'',
       polarity = float_0_1, subjectivity = 0\<rparr>) = ''Neutral'' \<and>
   sentiment \<lparr>orig_text = ''x'', cleaned_text = ''x'', sentiment = ''Positive'',
       polarity = float_0_1, subjectivity = 0\<rparr> \<noteq>
   classify (polarity \<lparr>orig_text = ''x'', cleaned_text = ''x'', sentiment = ''Positive'',
       polarity = float_0_1, subjectivity = 0\<rparr>)"
  using near_threshold_results classify_threshold by simp

text \<open>The record of the same batch.\<close>

theorem stored_sentiment_of_backend_polarity_witness:
  "\<exists>p s. (\<lambda>s. Inr (411 / 4096, 0)) ''x'' = Inr (p, s) \<and>
         ''Positive'' = classify p \<and> float_0_1 = py_round p 3"
proof -
  have m: "\<lparr>orig_text = ''x'', cleaned_text = ''x'', sentiment = ''Positive'',
       polarity = float_0_1, subjectivity = 0\<rparr>
        \<in> set (results (snd (analyze_multiple (\<lambda>s. Inr (411 / 4096, 0)) [''x''] init)))"
    unfolding near_threshold_results by simp
  show ?thesis
    using stored_sentiment_of_backend_polarity[OF m] by simp
qed

subsection \<open>The most common words\<close>

lemma counter_snoc: "counter (ws @ [w]) = counter_add w (counter ws)"
  by (simp add: counter_def)

lemma keys_counter_add:
  "map fst (counter_add w kvs) = (if w \<in> set (map fst kvs) then map fst kvs else map fst kvs @ [w])"
proof (induction kvs)
  case Nil
  show ?case by simp
next
  case (Cons kv kvs)
  obtain k v where kv: "kv = (k, v)" by (cases kv)
  show ?case
  proof (cases "k = w")
    case True
    then show ?thesis using kv by simp
  next
    case False
    then show ?thesis using kv Cons.IH by fastforce
  qed
qed

lemma keys_counter: "set (map fst (counter ws)) = set ws"
proof (induction ws rule: rev_induct)
  case Nil
  show ?case by (simp add: counter_def)
next
  case (snoc w ws)
  then show ?case
    unfolding counter_snoc keys_counter_add by auto
qed

lemma distinct_counter: "distinct (map fst (counter ws))"
proof (induction ws rule: rev_induct)
  case Nil
  show ?case by (simp add: counter_def)
next
  case (snoc w ws)
  then show ?case
    unfolding counter_snoc keys_counter_add by auto
qed

lemma counter_add_count:
  "distinct (map fst kvs) \<Longrightarrow> (x, c) \<in> set (counter_add w kvs) \<Longrightarrow>
   (x \<noteq> w \<and> (x, c) \<in> set kvs) \<or>
   (x = w \<and> ((w \<notin> set (map fst kvs) \<and> c = 1) \<or> (\<exists>c'. (w, c') \<in> set kvs \<and> c = c' + 1)))"
proof (induction kvs)
  case Nil
  then show ?case by auto
next
  case (Cons kv kvs)
  obtain k v where kv: "kv = (k, v)" by (cases kv)
  show ?case
  proof (cases "k = w")
    case True
    then show ?thesis using Cons.prems kv by (auto simp: rev_image_eqI)
  next
    case False
    then have "(x, c) = (k, v) \<or> (x, c) \<in> set (counter_add w kvs)"
      using Cons.prems kv by auto
    then show ?thesis
    proof
      assume "(x, c) = (k, v)"
      then show ?thesis using False kv by auto
    next
      assume "(x, c) \<in> set (counter_add w kvs)"
      then show ?thesis using Cons.IH Cons.prems(1) False kv by auto
    qed
  qed
qed

lemma count_counter: "(x, c) \<in> set (counter ws) \<Longrightarrow> c = count_list ws x"
proof (induction ws arbitrary: x c rule: rev_induct)
  case Nil
  then show ?case by (simp add: counter_def)
next
  case (snoc w ws)
  have d: "distinct (map fst (counter ws))" by (rule distinct_counter)
  from counter_add_count[OF d snoc.prems[unfolded counter_snoc]]
  show ?case
  proof (elim disjE conjE exE)
    assume "x \<noteq> w" "(x, c) \<in> set (counter ws)"
    then show ?thesis using snoc.IH by simp
  next
    assume "x = w" "w \<notin> set (map fst (counter ws))" "c = 1"
    then show ?thesis using keys_counter[of ws] by (simp add: count_list_0_iff)
  next
    fix c' assume "x = w" "(w, c') \<in> set (counter ws)" "c = c' + 1"
    then show ?thesis using snoc.IH by simp
  qed
qed

lemma first_occ_less: "x \<in> set ws \<Longrightarrow> first_occ ws x < length ws"
  by (induction ws) auto

lemma first_occ_append:
  "first_occ (ws @ vs) x = (if x \<in> set ws then first_occ ws x else length ws + first_occ vs x)"
  by (induction ws) auto

lemma order_counter:
  "sorted_wrt (\<lambda>a b. first_occ ws a < first_occ ws b) (map fst (counter ws))"
proof (induction ws rule: rev_induct)
  case Nil
  show ?case by (simp add: counter_def)
next
  case (snoc w ws)
  have k: "set (map fst (counter ws)) = set ws" by (rule keys_counter)
  have old: "sorted_wrt (\<lambda>a b. first_occ (ws @ [w]) a < first_occ (ws @ [w]) b) (map fst (counter ws))"
    using snoc.IH k
    by (auto simp: sorted_wrt_iff_nth_less first_occ_append)
  show ?case
  proof (cases "w \<in> set ws")
    case True
    then show ?thesis using old k unfolding counter_snoc keys_counter_add by simp
  next
    case False
    have "\<forall>x\<in>set ws. first_occ (ws @ [w]) x < first_occ (ws @ [w]) w"
      using False first_occ_less by (auto simp: first_occ_append)
    then show ?thesis
      using old k False unfolding counter_snoc keys_counter_add
      by (simp add: sorted_wrt_append)
  qed
qed

lemma top_words_list_filtered:
  assumes "w \<in> set (top_words_list sentiment_type df)"
  shows "2 < length w \<and> w \<notin> set stopwords"
proof -
  obtain w0 where "w = lower w0" and "2 < length w0" and "lower w0 \<notin> set stopwords"
    using assms unfolding top_words_list_def Let_def set_map set_filter by blast
  then show ?thesis by (simp add: lower_def)
qed

lemma most_common_subset: "set (most_common n items) \<subseteq> set items"
proof -
  have "set (take (nat n) (sort_key (\<lambda>(w, c). - int c) items)) \<subseteq>
        set (sort_key (\<lambda>(w, c). - int c) items)"
    by (rule set_take_subset)
  then show ?thesis unfolding most_common_def set_sort .
qed

lemma get_top_words_subset:
  "set (fst (get_top_words sentiment_type top_n self)) \<subseteq>
   set (counter (top_words_list sentiment_type (results self)))"
proof (cases "results self = []")
  case True
  then show ?thesis by (simp add: get_top_words_def)
next
  case False
  then have "fst (get_top_words sentiment_type top_n self) =
      most_common top_n (counter (top_words_list sentiment_type (results self)))"
    by (simp add: get_top_words_def)
  then show ?thesis using most_common_subset by simp
qed

text \<open>
  Claim C7: for every stored collection, every sentiment filter and every \<open>top_n\<close>, no
  pair that \<open>get_top_words\<close> returns has a word of at most two characters or a word of
  the stopword set.
\<close>

theorem top_words_filtered:
  "\<forall>(w, c) \<in> set (fst (get_top_words sentiment_type top_n self)).
     2 < length w \<and> w \<notin> set stopwords"
proof (rule ballI)
  fix p assume p: "p \<in> set (fst (get_top_words sentiment_type top_n self))"
  obtain w c where wc: "p = (w, c)" by (cases p)
  have "p \<in> set (counter (top_words_list sentiment_type (results self)))"
    using p get_top_words_subset by blast
  then have "fst p \<in> fst ` set (counter (top_words_list sentiment_type (results self)))"
    by (rule imageI)
  then have "w \<in> set (map fst (counter (top_words_list sentiment_type (results self))))"
    using wc by simp
  then have "w \<in> set (top_words_list sentiment_type (results self))"
    unfolding keys_counter .
  then have "2 < length w \<and> w \<notin> set stopwords"
    by (rule top_words_list_filtered)
  then show "case p of (w, c) \<Rightarrow> 2 < length w \<and> w \<notin> set stopwords"
    using wc by simp
qed

lemma insort_ranked:
  fixes f :: "'a \<Rightarrow> int"
  assumes "sorted_wrt (\<lambda>a b. f a < f b \<or> (f a = f b \<and> Q a b)) ys" and "\<forall>y\<in>set ys. Q x y"
  shows "sorted_wrt (\<lambda>a b. f a < f b \<or> (f a = f b \<and> Q a b)) (insort_key f x ys)"
  using assms
proof (induction ys)
  case Nil
  show ?case by simp
next
  case (Cons y ys)
  show ?case
  proof (cases "f x \<le> f y")
    case True
    have "\<forall>z\<in>set ys. f y \<le> f z" using Cons.prems(1) by auto
    then have "\<forall>z\<in>set (y # ys). f x < f z \<or> (f x = f z \<and> Q x z)"
      using True Cons.prems(2) by fastforce
    then show ?thesis using True Cons.prems(1) by simp
  next
    case False
    have "sorted_wrt (\<lambda>a b. f a < f b \<or> (f a = f b \<and> Q a b)) (insort_key f x ys)"
      using Cons by simp
    moreover have "\<forall>z\<in>set (insort_key f x ys). f y < f z \<or> (f y = f z \<and> Q y z)"
      using False Cons.prems(1) by (auto simp: set_insort_key)
    ultimately show ?thesis using False by simp
  qed
qed

lemma sort_ranked:
  fixes f :: "'a \<Rightarrow> int"
  assumes "sorted_wrt Q xs"
  shows "sorted_wrt (\<lambda>a b. f a < f b \<or> (f a = f b \<and> Q a b)) (sort_key f xs)"
  using assms
proof (induction xs)
  case Nil
  show ?case by simp
next
  case (Cons x xs)
  then show ?case
    using insort_ranked[of f Q "sort_key f xs" x] by simp
qed

lemma ranked_counter:
  "sorted_wrt (\<lambda>(w1, c1) (w2, c2). c2 < c1 \<or> (c1 = c2 \<and> first_occ ws w1 < first_occ ws w2))
     (sort_key (\<lambda>(w, c). - int c) (counter ws))"
proof -
  have "sorted_wrt (\<lambda>a b. first_occ ws (fst a) < first_occ ws (fst b)) (counter ws)"
    using order_counter[of ws] by (simp add: sorted_wrt_map)
  then have "sorted_wrt (\<lambda>a b. (case a of (w, c) \<Rightarrow> - int c) < (case b of (w, c) \<Rightarrow> - int c) \<or>
      ((case a of (w, c) \<Rightarrow> - int c) = (case b of (w, c) \<Rightarrow> - int c) \<and>
       first_occ ws (fst a) < first_occ ws (fst b)))
     (sort_key (\<lambda>(w, c). - int c) (counter ws))"
    by (rule sort_ranked)
  then show ?thesis
    by (rule sorted_wrt_mono_rel[rotated]) auto
qed

lemma py_split_Nil: "py_split [] = []"
  by (simp add: py_split.simps)

lemma top_words_list_no_rows:
  "select_rows sentiment_type df = [] \<Longrightarrow> top_words_list sentiment_type df = []"
  by (simp add: top_words_list_def py_split_Nil)

lemma counter_Nil: "counter [] = []"
  by (simp add: counter_def)

lemma first_occ_filter:
  assumes "P x" and "P y" and "x \<in> set xs"
  shows "(first_occ (filter P xs) x < first_occ (filter P xs) y) = (first_occ xs x < first_occ xs y)"
  using assms(3)
proof (induction xs)
  case Nil
  then show ?case by simp
next
  case (Cons h xs)
  show ?case
  proof (cases "h = x")
    case True
    then show ?thesis using assms(1) by simp
  next
    case False
    then have x: "x \<in> set xs" using Cons.prems by simp
    show ?thesis
    proof (cases "h = y")
      case True
      then show ?thesis using assms(2) by simp
    next
      case hy: False
      show ?thesis using False hy Cons.IH[OF x] by simp
    qed
  qed
qed

lemma top_words_list_alt:
  "top_words_list sentiment_type df =
   filter (\<lambda>v. 2 < length v \<and> v \<notin> set stopwords)
     (map lower (py_split (py_join '' '' (map cleaned_text (select_rows sentiment_type df)))))"
  by (simp add: top_words_list_def Let_def filter_map comp_def lower_def)

lemma count_list_filter: "P w \<Longrightarrow> count_list (filter P xs) w = count_list xs w"
  by (induction xs) auto

text \<open>
  Claim C8: let \<open>rows\<close> be the stored records whose \<open>sentiment\<close> field equals the
  filter (all records when the filter is \<open>None\<close> or empty), \<open>toks\<close> the lower-cased
  tokens of their cleaned texts joined by single spaces, and \<open>ws\<close> the tokens longer
  than two characters that are no stopwords. \<open>get_top_words\<close> returns at most \<open>top_n\<close>
  pairs, in descending order of count, pairs of equal count in the order in which their
  words first occur in \<open>toks\<close>; the words are distinct words of \<open>ws\<close>, each with the
  number of its occurrences; a word of \<open>ws\<close> is left out only when \<open>top_n\<close> pairs are
  returned, all of which rank before it (a greater count, or the same count and an earlier
  first occurrence); and the result is empty when no record matches the filter or no
  token survives the filtering.
\<close>

theorem top_words_ranking:
  "let rows = (case sentiment_type of
                 None \<Rightarrow> results self
               | Some t \<Rightarrow> if t = [] then results self
                           else filter (\<lambda>r. sentiment r = t) (results self));
       toks = map lower (py_split (py_join '' '' (map cleaned_text rows)));
       ws = filter (\<lambda>v. 2 < length v \<and> v \<notin> set stopwords) toks;
       res = fst (get_top_words sentiment_type top_n self)
   in length res \<le> nat top_n \<and>
      sorted_wrt (\<lambda>(w1, c1) (w2, c2).
          c2 < c1 \<or> (c1 = c2 \<and> first_occ toks w1 < first_occ toks w2)) res \<and>
      distinct (map fst res) \<and>
      (\<forall>(w, c) \<in> set res. w \<in> set ws \<and> c = count_list toks w) \<and>
      (\<forall>w \<in> set ws. w \<in> fst ` set res \<or>
         (length res = nat top_n \<and>
          (\<forall>(w', c') \<in> set res. count_list toks w < c' \<or>
             (count_list toks w = c' \<and> first_occ toks w' < first_occ toks w)))) \<and>
      (rows = [] \<or> ws = [] \<longrightarrow> res = []) \<and>
      (\<forall>t. sentiment_type = Some t \<and> t \<noteq> [] \<and> (\<forall>r\<in>set (results self). sentiment r \<noteq> t)
           \<longrightarrow> res = [])"
proof -
  define rows where "rows = (case sentiment_type of
                 None \<Rightarrow> results self
               | Some t \<Rightarrow> if t = [] then results self
                           else filter (\<lambda>r. sentiment r = t) (results self))"
  define toks where "toks = map lower (py_split (py_join '' '' (map cleaned_text rows)))"
  define ws where "ws = filter (\<lambda>v. 2 < length v \<and> v \<notin> set stopwords) toks"
  define res where "res = fst (get_top_words sentiment_type top_n self)"
  define S where "S = sort_key (\<lambda>(w, c). - int c) (counter ws)"
  define R where "R = (\<lambda>(w1 :: string, c1 :: nat) (w2 :: string, c2 :: nat).
      c2 < c1 \<or> (c1 = c2 \<and> first_occ ws w1 < first_occ ws w2))"
  define R' where "R' = (\<lambda>(w1 :: string, c1 :: nat) (w2 :: string, c2 :: nat).
      c2 < c1 \<or> (c1 = c2 \<and> first_occ toks w1 < first_occ toks w2))"
  have rows: "select_rows sentiment_type (results self) = rows"
    unfolding rows_def select_rows_def ..
  have ws: "top_words_list sentiment_type (results self) = ws"
    unfolding ws_def toks_def rows[symmetric] by (rule top_words_list_alt)
  have rows_empty: "rows = []" if "results self = []"
    using that by (simp add: rows_def split: option.splits)
  have ws_empty: "ws = []" if "rows = []"
    using that top_words_list_no_rows[of sentiment_type "results self"] rows ws by simp
  have S_empty: "S = []" if "ws = []"
    using that by (simp add: S_def counter_Nil)
  have res: "res = take (nat top_n) S"
  proof (cases "results self = []")
    case True
    then show ?thesis
      using rows_empty ws_empty S_empty by (simp add: res_def get_top_words_def)
  next
    case False
    then show ?thesis
      by (simp add: res_def get_top_words_def most_common_def S_def ws)
  qed
  have set_S: "set S = set (counter ws)"
    by (simp add: S_def)
  have elem: "w \<in> set ws \<and> c = count_list toks w \<and> w \<in> set toks \<and>
      2 < length w \<and> w \<notin> set stopwords" if "(w, c) \<in> set S" for w c
  proof -
    have p: "(w, c) \<in> set (counter ws)" using that set_S by simp
    then have "fst (w, c) \<in> fst ` set (counter ws)" by (rule imageI)
    then have "w \<in> set (map fst (counter ws))" by simp
    then have w: "w \<in> set ws" unfolding keys_counter .
    then have P: "2 < length w \<and> w \<notin> set stopwords" and t: "w \<in> set toks"
      unfolding ws_def by simp_all
    have "c = count_list ws w" using p by (rule count_counter)
    also have "\<dots> = count_list toks w" unfolding ws_def using P by (rule count_list_filter)
    finally show ?thesis using w P t by simp
  qed
  have "sorted_wrt R S"
    unfolding R_def S_def by (rule ranked_counter)
  then have sorted_S: "sorted_wrt R' S"
  proof (rule sorted_wrt_mono_rel[rotated])
    fix a b assume a: "a \<in> set S" and b: "b \<in> set S" and r: "R a b"
    obtain w1 c1 where a': "a = (w1, c1)" by (cases a)
    obtain w2 c2 where b': "b = (w2, c2)" by (cases b)
    have p1: "2 < length w1 \<and> w1 \<notin> set stopwords" and t1: "w1 \<in> set toks"
      using elem[of w1 c1] a a' by simp_all
    have p2: "2 < length w2 \<and> w2 \<notin> set stopwords"
      using elem[of w2 c2] b b' by simp
    have "(first_occ ws w1 < first_occ ws w2) = (first_occ toks w1 < first_occ toks w2)"
      unfolding ws_def using p1 p2 t1
      by (rule first_occ_filter[of "\<lambda>v. 2 < length v \<and> v \<notin> set stopwords"])
    then show "R' a b" using r unfolding R_def R'_def a' b' by simp
  qed
  have sub: "set res \<subseteq> set S"
    unfolding res by (rule set_take_subset)
  have 1: "length res \<le> nat top_n"
    by (simp add: res)
  have 2: "sorted_wrt R' res"
    unfolding res using sorted_S by (rule sorted_wrt_take)
  have 3: "distinct (map fst res)"
  proof (rule ccontr)
    assume "\<not> distinct (map fst res)"
    then obtain i j where ij: "i < j" and j: "j < length res" and e: "fst (res ! i) = fst (res ! j)"
      unfolding distinct_conv_nth
      by (metis length_map nat_neq_iff nth_map)
    have r: "R' (res ! i) (res ! j)"
      using 2 ij j by (simp add: sorted_wrt_iff_nth_less)
    obtain w c1 where a: "res ! i = (w, c1)" by (cases "res ! i")
    obtain c2 where b: "res ! j = (w, c2)" using e a by (cases "res ! j") auto
    have "(w, c1) \<in> set S" "(w, c2) \<in> set S"
      using sub a b ij j by (metis nth_mem order_less_trans subsetD)+
    then have "c1 = count_list toks w" "c2 = count_list toks w"
      using elem by blast+
    then show False using r unfolding R'_def a b by simp
  qed
  have 4: "\<forall>(w, c) \<in> set res. w \<in> set ws \<and> c = count_list toks w"
  proof (rule ballI)
    fix p assume "p \<in> set res"
    then have p: "p \<in> set S" using sub by blast
    obtain w c where wc: "p = (w, c)" by (cases p)
    show "case p of (w, c) \<Rightarrow> w \<in> set ws \<and> c = count_list toks w"
      using elem[of w c] p wc by simp
  qed
  have 5: "\<forall>w \<in> set ws. w \<in> fst ` set res \<or>
         (length res = nat top_n \<and>
          (\<forall>(w', c') \<in> set res. count_list toks w < c' \<or>
             (count_list toks w = c' \<and> first_occ toks w' < first_occ toks w)))"
  proof (rule ballI)
    fix w assume "w \<in> set ws"
    then have "w \<in> set (map fst (counter ws))" unfolding keys_counter .
    then obtain c where wc: "(w, c) \<in> set S" using set_S by auto
    have c: "c = count_list toks w" using elem[OF wc] by simp
    have split: "S = res @ drop (nat top_n) S" by (simp add: res)
    show "w \<in> fst ` set res \<or>
         (length res = nat top_n \<and>
          (\<forall>(w', c') \<in> set res. count_list toks w < c' \<or>
             (count_list toks w = c' \<and> first_occ toks w' < first_occ toks w)))"
    proof (cases "(w, c) \<in> set res")
      case True
      then have "fst (w, c) \<in> fst ` set res" by (rule imageI)
      then show ?thesis by simp
    next
      case False
      then have d: "(w, c) \<in> set (drop (nat top_n) S)"
        using wc split by (metis Un_iff set_append)
      then have "drop (nat top_n) S \<noteq> []" by auto
      then have len: "length res = nat top_n" by (simp add: res)
      have "sorted_wrt R' (res @ drop (nat top_n) S)" using sorted_S split by simp
      then have "\<forall>x\<in>set res. R' x (w, c)" using d by (simp add: sorted_wrt_append)
      then have "\<forall>(w', c') \<in> set res. count_list toks w < c' \<or>
             (count_list toks w = c' \<and> first_occ toks w' < first_occ toks w)"
        unfolding R'_def c by auto
      then show ?thesis using len by simp
    qed
  qed
  have 6: "rows = [] \<or> ws = [] \<longrightarrow> res = []"
    using S_empty ws_empty by (auto simp: res)
  have 7: "\<forall>t. sentiment_type = Some t \<and> t \<noteq> [] \<and> (\<forall>r\<in>set (results self). sentiment r \<noteq> t)
           \<longrightarrow> res = []"
  proof (intro allI impI)
    fix t assume a: "sentiment_type = Some t \<and> t \<noteq> [] \<and> (\<forall>r\<in>set (results self). sentiment r \<noteq> t)"
    then have "rows = filter (\<lambda>r. sentiment r = t) (results self)"
      by (simp add: rows_def)
    also have "\<dots> = []" using a by (simp add: filter_empty_conv)
    finally show "res = []" using 6 by simp
  qed
  show ?thesis
    using 1 2 3 4 5 6 7 unfolding Let_def R'_def ws_def[symmetric] toks_def[symmetric]
      rows_def[symmetric] res_def[symmetric] by blast
qed

lemma ex_top_words:
  "fst (get_top_words None 2 example_state) = [(''great'', 2), (''product'', 1)]"
  by code_simp

lemma great_no_stopword: "''great'' \<notin> set stopwords"
  by code_simp

text \<open>The two most common words of the example collection.\<close>

theorem top_words_filtered_witness:
  "(''great'', 2) \<in> set (fst (get_top_words None 2 example_state)) \<and>
   2 < length ''great'' \<and> ''great'' \<notin> set stopwords"
  using top_words_filtered[of None 2 example_state] unfolding ex_top_words by simp

lemma ex_no_negative: "\<forall>r\<in>set (results example_state). sentiment r \<noteq> ''negative''"
  by (simp add: example_state_def)

text \<open>
  The example collection: the two most common words, with a tie at the cut, and a filter
  that matches no record.
\<close>

theorem top_words_ranking_witness:
  "fst (get_top_words None 2 example_state) = [(''great'', 2), (''product'', 1)] \<and>
   length (fst (get_top_words None 2 example_state)) \<le> nat 2 \<and>
   distinct (map fst (fst (get_top_words None 2 example_state))) \<and>
   fst (get_top_words (Some ''negative'') 10 example_state) = []"
proof -
  note T1 = top_words_ranking[where sentiment_type = None and self = example_state and top_n = 2,
      unfolded Let_def]
  note T2 = top_words_ranking[where sentiment_type = "Some ''negative''" and self = example_state
      and top_n = 10, unfolded Let_def]
  from T1 have a: "length (fst (get_top_words None 2 example_state)) \<le> nat 2"
    and b: "distinct (map fst (fst (get_top_words None 2 example_state)))"
    by blast+
  from T2 have "\<forall>t. Some ''negative'' = Some t \<and> t \<noteq> [] \<and>
      (\<forall>r\<in>set (results example_state). sentiment r \<noteq> t) \<longrightarrow>
      fst (get_top_words (Some ''negative'') 10 example_state) = []"
    by blast
  then have c: "fst (get_top_words (Some ''negative'') 10 example_state) = []"
    using ex_no_negative by simp
  show ?thesis using a b c ex_top_words by simp
qed

subsection \<open>Cleaning a cleaned text\<close>

lemma re_word_nonspace: "re_word c \<Longrightarrow> \<not> isspace c"
  unfolding re_word_def isalnum_def isspace_def Let_def by (cases "c = CHR ''_''") auto

lemma lit_chars:
  "\<forall>x\<in>set ''http''. re_word x" "\<forall>x\<in>set ''www''. re_word x" "\<forall>x\<in>set ''https''. re_word x"
  by (simp_all add: re_word_def isalnum_def)

lemma at_char: "\<not> re_word CHR ''@''" "\<not> isspace CHR ''@''" "\<not> isspace CHR ''#''" "isspace CHR '' ''"
  by (simp_all add: re_word_def isalnum_def isspace_def)

lemma unmatched_id: "unmatched m s \<Longrightarrow> re_sub m s = s"
  by (induction s) auto

lemma unmatched_append: "unmatched m (p @ s) \<Longrightarrow> unmatched m s"
  by (induction p) auto

lemma unmatched_drop: "unmatched m s \<Longrightarrow> unmatched m (drop n s)"
  using unmatched_append[of m "take n s" "drop n s"] by simp

lemma unmatched_dropWhile: "unmatched m s \<Longrightarrow> unmatched m (dropWhile P s)"
  using unmatched_append[of m "takeWhile P s" "dropWhile P s"] by simp

lemma lit_then_plus_None:
  "(lit_then_plus lit cls s \<noteq> None) = (\<exists>d r. s = lit @ d # r \<and> cls d)"
proof
  assume h: "lit_then_plus lit cls s \<noteq> None"
  then have t: "take (length lit) s = lit" and w: "takeWhile cls (drop (length lit) s) \<noteq> []"
    by (auto simp: lit_then_plus_def split: if_splits list.splits)
  from w obtain d r where dr: "drop (length lit) s = d # r" and "cls d"
    by (cases "drop (length lit) s") (auto split: if_splits)
  have "s = take (length lit) s @ drop (length lit) s" by simp
  then have "s = lit @ d # r" using t dr by simp
  then show "\<exists>d r. s = lit @ d # r \<and> cls d" using \<open>cls d\<close> by blast
next
  assume "\<exists>d r. s = lit @ d # r \<and> cls d"
  then show "lit_then_plus lit cls s \<noteq> None"
    by (auto simp: lit_then_plus_def)
qed

lemma lit_then_plus_Some:
  assumes "lit_then_plus lit cls s = Some n" and "\<forall>x\<in>set lit. cls x"
  shows "n = length (takeWhile cls s) \<and> 0 < n"
proof -
  have t: "take (length lit) s = lit" and w: "takeWhile cls (drop (length lit) s) \<noteq> []"
    and n: "n = length lit + length (takeWhile cls (drop (length lit) s))"
    using assms(1) by (auto simp: lit_then_plus_def split: if_splits list.splits)
  have "s = lit @ drop (length lit) s"
    using t append_take_drop_id[of "length lit" s] by simp
  then have "takeWhile cls s = lit @ takeWhile cls (drop (length lit) s)"
    using assms(2) by (metis takeWhile_append2)
  then show ?thesis using n w by simp
qed

lemma takeWhile_token:
  assumes "\<forall>x\<in>set t. \<not> isspace x" and "r = [] \<or> isspace (hd r)"
  shows "takeWhile (\<lambda>x. \<not> isspace x) (t @ r) = t"
proof -
  have "takeWhile (\<lambda>x. \<not> isspace x) r = []"
    using assms(2) by (cases r) auto
  then show ?thesis using assms(1) by (simp add: takeWhile_append2)
qed

lemma token_localI:
  assumes hit: "\<And>s. (m s \<noteq> None) = (\<exists>p r. s = p @ r \<and> Pat p)"
    and pat: "\<And>p. Pat p \<Longrightarrow> p \<noteq> [] \<and> (\<forall>x\<in>set p. \<not> isspace x)"
  shows "token_local m"
  unfolding token_local_def
proof (intro conjI allI impI)
  fix c r assume sp: "isspace c"
  show "m (c # r) = None"
  proof (rule ccontr)
    assume "m (c # r) \<noteq> None"
    then obtain p r' where e: "c # r = p @ r'" and p: "Pat p" using hit by blast
    then have "p \<noteq> []" and ns: "\<forall>x\<in>set p. \<not> isspace x" using pat by auto
    then have "hd p = c" using e by (cases p) auto
    then show False using sp ns \<open>p \<noteq> []\<close> by (metis hd_in_set)
  qed
next
  fix t r
  assume a: "t \<noteq> [] \<and> (\<forall>x\<in>set t. \<not> isspace x) \<and> (r = [] \<or> isspace (hd r))"
  have "(m (t @ r) \<noteq> None) = (m t \<noteq> None)"
  proof
    assume "m (t @ r) \<noteq> None"
    then obtain p r' where e: "t @ r = p @ r'" and p: "Pat p" using hit by blast
    have ns: "\<forall>x\<in>set p. \<not> isspace x" using pat p by auto
    have "takeWhile (\<lambda>x. \<not> isspace x) (t @ r) = t"
      using a by (intro takeWhile_token) auto
    moreover have "takeWhile (\<lambda>x. \<not> isspace x) (p @ r') = p @ takeWhile (\<lambda>x. \<not> isspace x) r'"
      using ns by (simp add: takeWhile_append2)
    ultimately have "t = p @ takeWhile (\<lambda>x. \<not> isspace x) r'" using e by simp
    then show "m t \<noteq> None" using hit p by blast
  next
    assume "m t \<noteq> None"
    then obtain p r' where "t = p @ r'" and p: "Pat p" using hit by blast
    then have "t @ r = p @ (r' @ r)" by simp
    then show "m (t @ r) \<noteq> None" using hit p by blast
  qed
  then show "(m (t @ r) = None) = (m t = None)" by blast
qed

lemma url_match_None:
  "(url_match s \<noteq> None) =
   (\<exists>p r. s = p @ r \<and> (\<exists>d. \<not> isspace d \<and> (p = ''http'' @ [d] \<or> p = ''www'' @ [d])))"
proof -
  have s5: "lit_then_plus ''https'' re_nonspace s \<noteq> None \<Longrightarrow>
            lit_then_plus ''http'' re_nonspace s \<noteq> None"
  proof -
    assume "lit_then_plus ''https'' re_nonspace s \<noteq> None"
    then obtain d r where "s = ''https'' @ d # r"
      unfolding lit_then_plus_None by blast
    then have "s = ''http'' @ CHR ''s'' # (d # r)" by simp
    moreover have "re_nonspace CHR ''s''" by (simp add: re_nonspace_def isspace_def)
    ultimately show ?thesis unfolding lit_then_plus_None by blast
  qed
  have 1: "(url_match s \<noteq> None) =
        (lit_then_plus ''http'' re_nonspace s \<noteq> None \<or> lit_then_plus ''www'' re_nonspace s \<noteq> None)"
  proof (cases "lit_then_plus ''http'' re_nonspace s")
    case (Some n)
    then show ?thesis by (simp add: url_match_def)
  next
    case None
    then have "lit_then_plus ''https'' re_nonspace s = None" using s5 by blast
    then show ?thesis using None by (simp add: url_match_def split: option.splits)
  qed
  have 2: "(\<exists>d r. s = lit @ d # r \<and> re_nonspace d) =
           (\<exists>p r. s = p @ r \<and> (\<exists>d. \<not> isspace d \<and> p = lit @ [d]))" for lit
  proof
    assume "\<exists>d r. s = lit @ d # r \<and> re_nonspace d"
    then obtain d r where "s = (lit @ [d]) @ r" and "\<not> isspace d"
      by (auto simp: re_nonspace_def)
    then show "\<exists>p r. s = p @ r \<and> (\<exists>d. \<not> isspace d \<and> p = lit @ [d])" by blast
  next
    assume "\<exists>p r. s = p @ r \<and> (\<exists>d. \<not> isspace d \<and> p = lit @ [d])"
    then obtain d r where "s = (lit @ [d]) @ r" and "\<not> isspace d" by blast
    then have "s = lit @ d # r \<and> re_nonspace d" by (simp add: re_nonspace_def)
    then show "\<exists>d r. s = lit @ d # r \<and> re_nonspace d" by blast
  qed
  show ?thesis
    unfolding 1 lit_then_plus_None 2 by blast
qed

lemma url_match_Some:
  assumes "url_match s = Some n"
  shows "n = length (takeWhile re_nonspace s) \<and> 0 < n"
proof -
  have ns: "\<forall>x\<in>set ''http''. re_nonspace x" "\<forall>x\<in>set ''www''. re_nonspace x"
    "\<forall>x\<in>set ''https''. re_nonspace x"
    by (simp_all add: re_nonspace_def isspace_def)
  from assms consider "lit_then_plus ''http'' re_nonspace s = Some n"
    | "lit_then_plus ''www'' re_nonspace s = Some n"
    | "lit_then_plus ''https'' re_nonspace s = Some n"
    by (auto simp: url_match_def split: option.splits)
  then show ?thesis
  proof cases
    case 1
    then show ?thesis using ns(1) by (rule lit_then_plus_Some)
  next
    case 2
    then show ?thesis using ns(2) by (rule lit_then_plus_Some)
  next
    case 3
    then show ?thesis using ns(3) by (rule lit_then_plus_Some)
  qed
qed

lemma mention_match_None:
  "(mention_match s \<noteq> None) = (\<exists>p r. s = p @ r \<and> (\<exists>d. re_word d \<and> p = [CHR ''@'', d]))"
proof
  assume "mention_match s \<noteq> None"
  then obtain d r where "s = ''@'' @ d # r" and d: "re_word d"
    unfolding mention_match_def lit_then_plus_None by blast
  then have "s = [CHR ''@'', d] @ r" by simp
  then show "\<exists>p r. s = p @ r \<and> (\<exists>d. re_word d \<and> p = [CHR ''@'', d])" using d by blast
next
  assume "\<exists>p r. s = p @ r \<and> (\<exists>d. re_word d \<and> p = [CHR ''@'', d])"
  then obtain d r where "s = [CHR ''@'', d] @ r" and d: "re_word d" by blast
  then have "s = ''@'' @ d # r" by simp
  then show "mention_match s \<noteq> None"
    unfolding mention_match_def lit_then_plus_None using d by blast
qed

lemma mention_match_Some:
  assumes "mention_match (c # cs) = Some n"
  shows "c = CHR ''@'' \<and> n = Suc (length (takeWhile re_word cs))"
proof -
  have t: "take (length ''@'') (c # cs) = ''@''"
    and n: "n = length ''@'' + length (takeWhile re_word (drop (length ''@'') (c # cs)))"
    using assms unfolding mention_match_def lit_then_plus_def
    by (auto split: if_splits list.splits)
  from t have "c = CHR ''@''" by simp
  then show ?thesis using n by simp
qed

lemma hash_match_None:
  "(hash_match s \<noteq> None) = (\<exists>p r. s = p @ r \<and> p = ''#'')"
  by (cases s) (simp_all add: hash_match_def)

lemma token_local_url: "token_local url_match"
proof (rule token_localI[OF url_match_None])
  fix p assume "\<exists>d. \<not> isspace d \<and> (p = ''http'' @ [d] \<or> p = ''www'' @ [d])"
  then obtain d where d: "\<not> isspace d" and p: "p = ''http'' @ [d] \<or> p = ''www'' @ [d]" by blast
  have "\<forall>x\<in>set ''http''. \<not> isspace x" "\<forall>x\<in>set ''www''. \<not> isspace x"
    by (simp_all add: isspace_def)
  then show "p \<noteq> [] \<and> (\<forall>x\<in>set p. \<not> isspace x)"
    using d p by (elim disjE) simp_all
qed

lemma token_local_mention: "token_local mention_match"
proof (rule token_localI[OF mention_match_None])
  fix p assume "\<exists>d. re_word d \<and> p = [CHR ''@'', d]"
  then obtain d where "re_word d" and p: "p = [CHR ''@'', d]" by blast
  then have "\<not> isspace d" by (rule_tac re_word_nonspace)
  then show "p \<noteq> [] \<and> (\<forall>x\<in>set p. \<not> isspace x)"
    using p at_char(2) by simp
qed

lemma token_local_hash: "token_local hash_match"
proof (rule token_localI[OF hash_match_None])
  fix p :: string assume "p = ''#''"
  then show "p \<noteq> [] \<and> (\<forall>x\<in>set p. \<not> isspace x)"
    using at_char(3) by simp
qed

lemma re_nonspace_eq: "re_nonspace = (\<lambda>c. \<not> isspace c)"
  by (rule ext) (simp add: re_nonspace_def)

lemma py_split_none:
  assumes "dropWhile isspace s = []"
  shows "py_split s = []"
proof -
  have "py_split s =
      (case dropWhile isspace s of
        [] \<Rightarrow> []
      | c # r \<Rightarrow> takeWhile re_nonspace (c # r) # py_split (dropWhile re_nonspace (c # r)))"
    by (rule py_split.simps)
  then show ?thesis unfolding assms by (simp only: list.case)
qed

lemma py_split_some:
  assumes "dropWhile isspace s = c # r"
  shows "py_split s = takeWhile re_nonspace (c # r) # py_split (dropWhile re_nonspace (c # r))"
proof -
  have "py_split s =
      (case dropWhile isspace s of
        [] \<Rightarrow> []
      | c # r \<Rightarrow> takeWhile re_nonspace (c # r) # py_split (dropWhile re_nonspace (c # r)))"
    by (rule py_split.simps)
  then show ?thesis unfolding assms by (simp only: list.case)
qed

lemma dropWhile_head:
  assumes "dropWhile P s = c # r"
  shows "\<not> P c"
proof -
  have "\<not> P (hd (dropWhile P s))" by (rule hd_dropWhile) (simp add: assms)
  then show ?thesis by (simp add: assms)
qed

lemma py_split_dropWhile: "py_split (dropWhile isspace s) = py_split s"
proof -
  have "py_split (dropWhile isspace s) =
      (case dropWhile isspace (dropWhile isspace s) of
        [] \<Rightarrow> []
      | c # r \<Rightarrow> takeWhile re_nonspace (c # r) # py_split (dropWhile re_nonspace (c # r)))"
    by (rule py_split.simps)
  also have "\<dots> = (case dropWhile isspace s of
        [] \<Rightarrow> []
      | c # r \<Rightarrow> takeWhile re_nonspace (c # r) # py_split (dropWhile re_nonspace (c # r)))"
    by (simp only: dropWhile_idem)
  also have "\<dots> = py_split s"
    by (rule py_split.simps[symmetric])
  finally show ?thesis .
qed

lemma py_split_token_append:
  assumes "token t" and "r = [] \<or> isspace (hd r)"
  shows "py_split (t @ r) = t # py_split r"
proof -
  obtain c t' where t: "t = c # t'" using assms(1) by (cases t) (auto simp: token_def)
  have ns: "\<forall>x\<in>set t. \<not> isspace x" using assms(1) by (simp add: token_def)
  then have c: "\<not> isspace c" using t by simp
  have d: "dropWhile isspace (t @ r) = c # (t' @ r)" using t c by simp
  have tw: "takeWhile re_nonspace (t @ r) = t"
    unfolding re_nonspace_eq using ns assms(2) by (rule takeWhile_token)
  have "takeWhile re_nonspace (t @ r) @ dropWhile re_nonspace (t @ r) = t @ r" by simp
  then have dw: "dropWhile re_nonspace (t @ r) = r" unfolding tw by simp
  have "py_split (t @ r) =
      takeWhile re_nonspace (c # (t' @ r)) # py_split (dropWhile re_nonspace (c # (t' @ r)))"
    using d by (rule py_split_some)
  also have "c # (t' @ r) = t @ r" using t by simp
  finally show ?thesis unfolding tw dw .
qed

lemma py_split_tokens: "\<forall>t\<in>set (py_split s). token t"
proof (induction s rule: py_split.induct)
  case (1 s)
  show ?case
  proof (cases "dropWhile isspace s")
    case Nil
    then have "py_split s = []" by (rule py_split_none)
    then show ?thesis by simp
  next
    case (Cons c r)
    then have c: "\<not> isspace c" by (rule dropWhile_head)
    have e: "py_split s = takeWhile re_nonspace (c # r) # py_split (dropWhile re_nonspace (c # r))"
      using Cons by (rule py_split_some)
    have "token (takeWhile re_nonspace (c # r))"
      unfolding token_def re_nonspace_eq using c by (auto dest: set_takeWhileD)
    then show ?thesis using e 1[OF Cons] by simp
  qed
qed

lemma py_split_join:
  assumes "\<forall>t\<in>set ts. token t"
  shows "py_split (py_join '' '' ts) = ts"
  using assms
proof (induction ts)
  case Nil
  show ?case by (simp add: py_split_Nil)
next
  case (Cons t ts)
  then have t: "token t" by simp
  show ?case
  proof (cases ts)
    case Nil
    have "py_split (t @ []) = t # py_split []" using t by (rule py_split_token_append) simp
    then show ?thesis using Nil by (simp add: py_split_Nil)
  next
    case (Cons u us)
    have j: "py_join '' '' (t # ts) = t @ (CHR '' '' # py_join '' '' ts)"
      using Cons by simp
    have "py_split (t @ (CHR '' '' # py_join '' '' ts)) = t # py_split (CHR '' '' # py_join '' '' ts)"
      using t by (rule py_split_token_append) (simp add: at_char)
    also have "py_split (CHR '' '' # py_join '' '' ts) =
               py_split (dropWhile isspace (CHR '' '' # py_join '' '' ts))"
      by (rule py_split_dropWhile[symmetric])
    also have "\<dots> = py_split (dropWhile isspace (py_join '' '' ts))"
      by (simp add: at_char)
    also have "\<dots> = py_split (py_join '' '' ts)" by (rule py_split_dropWhile)
    also have "\<dots> = ts" using Cons.IH Cons.prems by simp
    finally show ?thesis unfolding j .
  qed
qed

lemma token_localD1: "token_local m \<Longrightarrow> isspace c \<Longrightarrow> m (c # r) = None"
proof -
  assume "token_local m" and c: "isspace c"
  then have "\<forall>c r. isspace c \<longrightarrow> m (c # r) = None"
    unfolding token_local_def by (rule_tac conjunct1)
  then show "m (c # r) = None" using c by simp
qed

lemma token_localD2:
  assumes "token_local m" and "t \<noteq> []" and "\<forall>x\<in>set t. \<not> isspace x" and "r = [] \<or> isspace (hd r)"
  shows "(m (t @ r) = None) = (m t = None)"
proof -
  have "\<forall>t r. t \<noteq> [] \<and> (\<forall>x\<in>set t. \<not> isspace x) \<and> (r = [] \<or> isspace (hd r)) \<longrightarrow>
             (m (t @ r) = None) = (m t = None)"
    using assms(1) unfolding token_local_def by (rule conjunct2)
  then have "t \<noteq> [] \<and> (\<forall>x\<in>set t. \<not> isspace x) \<and> (r = [] \<or> isspace (hd r)) \<longrightarrow>
             (m (t @ r) = None) = (m t = None)"
    by (elim allE[of _ t] allE[of _ r])
  moreover have "t \<noteq> [] \<and> (\<forall>x\<in>set t. \<not> isspace x) \<and> (r = [] \<or> isspace (hd r))"
    using assms(2,3,4) by (intro conjI)
  ultimately show ?thesis by (rule mp)
qed

lemma unmatched_spaces:
  assumes "token_local m"
  shows "unmatched m (dropWhile isspace s) = unmatched m s"
proof (induction s)
  case Nil
  show ?case by simp
next
  case (Cons c cs)
  show ?case
  proof (cases "isspace c")
    case True
    with assms have "m (c # cs) = None" by (rule token_localD1)
    then show ?thesis using True Cons by simp
  next
    case False
    then show ?thesis by simp
  qed
qed

lemma unmatched_token:
  assumes "token_local m" and "r = [] \<or> isspace (hd r)"
  shows "(\<forall>x\<in>set t. \<not> isspace x) \<Longrightarrow> unmatched m (t @ r) = (unmatched m t \<and> unmatched m r)"
proof (induction t)
  case Nil
  show ?case by simp
next
  case (Cons c t)
  have "c # t \<noteq> []" by simp
  with assms(1) have "(m ((c # t) @ r) = None) = (m (c # t) = None)"
    using Cons.prems assms(2) by (rule token_localD2)
  then have 1: "(m (c # t @ r) = None) = (m (c # t) = None)"
    by (simp only: append_Cons)
  have "\<forall>x\<in>set t. \<not> isspace x" using Cons.prems by simp
  then have 2: "unmatched m (t @ r) = (unmatched m t \<and> unmatched m r)"
    by (rule Cons.IH)
  have "unmatched m ((c # t) @ r) = (m (c # t @ r) = None \<and> unmatched m (t @ r))"
    by (simp only: append_Cons unmatched.simps)
  also have "\<dots> = (m (c # t) = None \<and> unmatched m t \<and> unmatched m r)"
    by (simp only: 1 2)
  also have "\<dots> = (unmatched m (c # t) \<and> unmatched m r)"
    by (simp only: unmatched.simps conj_assoc)
  finally show ?case .
qed

lemma unmatched_tokens:
  assumes "token_local m"
  shows "unmatched m s = (\<forall>t\<in>set (py_split s). unmatched m t)"
proof (induction s rule: py_split.induct)
  case (1 s)
  show ?case
  proof (cases "dropWhile isspace s")
    case Nil
    then have "py_split s = []" by (rule py_split_none)
    moreover have "unmatched m s" using unmatched_spaces[OF assms, of s] Nil by simp
    ultimately show ?thesis by simp
  next
    case (Cons c r)
    define tok where "tok = takeWhile re_nonspace (c # r)"
    define rem where "rem = dropWhile re_nonspace (c # r)"
    have e: "py_split s = tok # py_split rem"
      unfolding tok_def rem_def using Cons by (rule py_split_some)
    have cr: "c # r = tok @ rem" by (simp add: tok_def rem_def)
    have ns: "\<forall>x\<in>set tok. \<not> isspace x"
      unfolding tok_def re_nonspace_eq by (auto dest: set_takeWhileD)
    have rem: "rem = [] \<or> isspace (hd rem)"
      unfolding rem_def re_nonspace_eq using hd_dropWhile[of "\<lambda>c. \<not> isspace c" "c # r"] by blast
    have "unmatched m s = unmatched m (c # r)"
      using unmatched_spaces[OF assms, of s] Cons by simp
    also have "\<dots> = (unmatched m tok \<and> unmatched m rem)"
      unfolding cr using assms rem ns by (rule unmatched_token)
    also have "unmatched m rem = (\<forall>t\<in>set (py_split rem). unmatched m t)"
      unfolding rem_def by (rule 1[OF Cons])
    finally show ?thesis unfolding e by simp
  qed
qed

lemma unmatched_normalize:
  assumes "token_local m"
  shows "unmatched m (py_join '' '' (py_split s)) = unmatched m s"
proof -
  have "py_split (py_join '' '' (py_split s)) = py_split s"
    using py_split_tokens by (rule py_split_join)
  then show ?thesis
    using unmatched_tokens[OF assms, of s] unmatched_tokens[OF assms, of "py_join '' '' (py_split s)"]
    by simp
qed

lemma re_sub_miss: "m (c # cs) = None \<Longrightarrow> re_sub m (c # cs) = c # re_sub m cs"
  by simp

lemma re_sub_hit:
  assumes "m (c # cs) = Some n" and "0 < n"
  shows "re_sub m (c # cs) = re_sub m (drop n (c # cs))"
proof -
  obtain k where "n = Suc k" using assms(2) by (cases n) auto
  then show ?thesis using assms(1) by simp
qed

lemma set_re_sub: "set (re_sub m s) \<subseteq> set s"
proof (induction s rule: length_induct)
  case (1 s)
  show ?case
  proof (cases s)
    case Nil
    then show ?thesis by simp
  next
    case (Cons c cs)
    have tail: "set (re_sub m cs) \<subseteq> set cs" using 1 Cons by simp
    show ?thesis
    proof (cases "m (c # cs)")
      case None
      then show ?thesis using tail Cons by auto
    next
      case (Some n)
      show ?thesis
      proof (cases n)
        case 0
        then show ?thesis using Some tail Cons by auto
      next
        case (Suc k)
        have "set (re_sub m (drop k cs)) \<subseteq> set (drop k cs)" using 1 Cons by simp
        moreover have "set (drop k cs) \<subseteq> set cs" by (rule set_drop_subset)
        ultimately show ?thesis using Some Suc Cons by auto
      qed
    qed
  qed
qed

lemma url_match_Nil: "url_match [] = None"
  by (simp add: url_match_def lit_then_plus_def)

lemma url_hit_step:
  assumes "url_match (c # cs) = Some n"
  shows "re_sub url_match (c # cs) = re_sub url_match (dropWhile re_nonspace (c # cs))"
    and "length (dropWhile re_nonspace (c # cs)) < length (c # cs)"
proof -
  from url_match_Some[OF assms] have n: "n = length (takeWhile re_nonspace (c # cs))"
    by (rule conjunct1)
  from url_match_Some[OF assms] have pos: "0 < n"
    by (rule conjunct2)
  have d: "drop n (c # cs) = dropWhile re_nonspace (c # cs)"
    unfolding n by (rule dropWhile_eq_drop[symmetric])
  show "re_sub url_match (c # cs) = re_sub url_match (dropWhile re_nonspace (c # cs))"
    using re_sub_hit[of url_match c cs n, OF assms pos] unfolding d .
  have "length (drop n (c # cs)) < length (c # cs)" using pos by simp
  then show "length (dropWhile re_nonspace (c # cs)) < length (c # cs)" unfolding d .
qed

lemma mention_hit_step:
  assumes "mention_match (c # cs) = Some n"
  shows "re_sub mention_match (c # cs) = re_sub mention_match (dropWhile re_word cs)"
    and "c = CHR ''@''"
proof -
  from mention_match_Some[OF assms] have c: "c = CHR ''@''"
    by (rule conjunct1)
  from mention_match_Some[OF assms] have n: "n = Suc (length (takeWhile re_word cs))"
    by (rule conjunct2)
  show "c = CHR ''@''" by (rule c)
  have d: "drop n (c # cs) = dropWhile re_word cs"
    unfolding n by (simp add: dropWhile_eq_drop)
  have pos: "0 < n" using n by simp
  show "re_sub mention_match (c # cs) = re_sub mention_match (dropWhile re_word cs)"
    using re_sub_hit[of mention_match c cs n, OF assms pos] unfolding d .
qed

lemma re_sub_space_head:
  assumes "token_local m" and "isspace g"
  shows "re_sub m (g # r) = g # re_sub m r"
  using token_localD1[OF assms] by (rule re_sub_miss)

lemma url_prefix:
  assumes "re_sub url_match cs = p @ q" and "\<forall>x\<in>set p. \<not> isspace x"
  shows "\<exists>q'. cs = p @ q'"
  using assms
proof (induction cs arbitrary: p q rule: length_induct)
  case (1 cs)
  show ?case
  proof (cases p)
    case Nil
    then show ?thesis by simp
  next
    case p: (Cons x p')
    then have x: "\<not> isspace x" using "1.prems"(2) by simp
    show ?thesis
    proof (cases cs)
      case Nil
      then show ?thesis using "1.prems"(1) p by simp
    next
      case cs: (Cons e es)
      show ?thesis
      proof (cases "url_match (e # es)")
        case None
        then have "e # re_sub url_match es = x # p' @ q"
          using "1.prems"(1) cs p by simp
        then have e: "e = x" and r: "re_sub url_match es = p' @ q" by simp_all
        have "\<forall>x\<in>set p'. \<not> isspace x" using "1.prems"(2) p by simp
        moreover have "length es < length cs" using cs by simp
        ultimately obtain q' where "es = p' @ q'" using 1(1) r by blast
        then show ?thesis using e cs p by simp
      next
        case (Some n)
        define rest where "rest = dropWhile re_nonspace (e # es)"
        have r: "re_sub url_match rest = x # p' @ q"
          using url_hit_step(1)[OF Some] "1.prems"(1) cs p unfolding rest_def by simp
        show ?thesis
        proof (cases rest)
          case Nil
          then show ?thesis using r by simp
        next
          case (Cons g rest')
          then have "\<not> re_nonspace g" unfolding rest_def by (rule dropWhile_head)
          then have g: "isspace g" by (simp add: re_nonspace_def)
          have "re_sub url_match (g # rest') = g # re_sub url_match rest'"
            using token_local_url g by (rule re_sub_space_head)
          then have "g = x" using r Cons by simp
          then show ?thesis using g x by simp
        qed
      qed
    qed
  qed
qed

lemma url_pass_unmatched: "unmatched url_match (re_sub url_match s)"
proof (induction s rule: length_induct)
  case (1 s)
  show ?case
  proof (cases s)
    case Nil
    then show ?thesis by simp
  next
    case (Cons c cs)
    show ?thesis
    proof (cases "url_match (c # cs)")
      case (Some n)
      show ?thesis
        using url_hit_step[OF Some] 1 Cons by simp
    next
      case None
      have tail: "unmatched url_match (re_sub url_match cs)" using 1 Cons by simp
      have "url_match (c # re_sub url_match cs) = None"
      proof (rule ccontr)
        assume "url_match (c # re_sub url_match cs) \<noteq> None"
        then obtain p r d where e: "c # re_sub url_match cs = p @ r" and d: "\<not> isspace d"
          and p: "p = ''http'' @ [d] \<or> p = ''www'' @ [d]"
          unfolding url_match_None by blast
        have ns: "\<forall>x\<in>set p. \<not> isspace x"
          using p d by (elim disjE) (simp_all add: isspace_def)
        obtain p' where pp: "p = c # p'" using e p by (cases p) auto
        then have "re_sub url_match cs = p' @ r" using e by simp
        moreover have "\<forall>x\<in>set p'. \<not> isspace x" using ns pp by simp
        ultimately obtain q' where "cs = p' @ q'" using url_prefix by blast
        then have "c # cs = p @ q'" using pp by simp
        then have "url_match (c # cs) \<noteq> None"
          unfolding url_match_None using d p by blast
        then show False using None by simp
      qed
      then show ?thesis using None tail Cons by simp
    qed
  qed
qed

lemma mention_match_not_at: "c \<noteq> CHR ''@'' \<Longrightarrow> mention_match (c # cs) = None"
  by (simp add: mention_match_def lit_then_plus_def)

lemma mention_prefix:
  assumes "re_sub mention_match cs = p @ q" and "\<forall>x\<in>set p. re_word x"
  shows "\<exists>q'. cs = p @ q'"
  using assms
proof (induction cs arbitrary: p q rule: length_induct)
  case (1 cs)
  show ?case
  proof (cases p)
    case Nil
    then show ?thesis by simp
  next
    case p: (Cons x p')
    then have x: "re_word x" using "1.prems"(2) by simp
    show ?thesis
    proof (cases cs)
      case Nil
      then show ?thesis using "1.prems"(1) p by simp
    next
      case cs: (Cons e es)
      show ?thesis
      proof (cases "mention_match (e # es)")
        case None
        then have "e # re_sub mention_match es = x # p' @ q"
          using "1.prems"(1) cs p by simp
        then have e: "e = x" and r: "re_sub mention_match es = p' @ q" by simp_all
        have "\<forall>x\<in>set p'. re_word x" using "1.prems"(2) p by simp
        moreover have "length es < length cs" using cs by simp
        ultimately obtain q' where "es = p' @ q'" using 1(1) r by blast
        then show ?thesis using e cs p by simp
      next
        case (Some n)
        define rest where "rest = dropWhile re_word es"
        have r: "re_sub mention_match rest = [x] @ (p' @ q)"
          using mention_hit_step(1)[OF Some] "1.prems"(1) cs p unfolding rest_def by simp
        have "length rest \<le> length es" unfolding rest_def by (rule length_dropWhile_le)
        then have "length rest < length cs" using cs by simp
        moreover have "\<forall>y\<in>set [x]. re_word y" using x by simp
        ultimately obtain q' where q': "rest = [x] @ q'" using 1(1) r by blast
        then have "dropWhile re_word es = x # q'" unfolding rest_def by simp
        then have "\<not> re_word x" by (rule dropWhile_head)
        then show ?thesis using x by simp
      qed
    qed
  qed
qed

lemma mention_pass_unmatched: "unmatched mention_match (re_sub mention_match s)"
proof (induction s rule: length_induct)
  case (1 s)
  show ?case
  proof (cases s)
    case Nil
    then show ?thesis by simp
  next
    case (Cons c cs)
    show ?thesis
    proof (cases "mention_match (c # cs)")
      case (Some n)
      have "length (dropWhile re_word cs) \<le> length cs" by (rule length_dropWhile_le)
      then have "length (dropWhile re_word cs) < length s" using Cons by simp
      then have "unmatched mention_match (re_sub mention_match (dropWhile re_word cs))"
        using 1 by blast
      then show ?thesis using mention_hit_step(1)[OF Some] Cons by simp
    next
      case None
      have tail: "unmatched mention_match (re_sub mention_match cs)" using 1 Cons by simp
      have "mention_match (c # re_sub mention_match cs) = None"
      proof (rule ccontr)
        assume "mention_match (c # re_sub mention_match cs) \<noteq> None"
        then obtain p r d where e: "c # re_sub mention_match cs = p @ r" and d: "re_word d"
          and p: "p = [CHR ''@'', d]"
          unfolding mention_match_None by blast
        then have c: "c = CHR ''@''" and "re_sub mention_match cs = [d] @ r" by simp_all
        moreover have "\<forall>x\<in>set [d]. re_word x" using d by simp
        ultimately obtain q' where "cs = [d] @ q'" using mention_prefix by blast
        then have "c # cs = p @ q'" using c p by simp
        then have "mention_match (c # cs) \<noteq> None"
          unfolding mention_match_None using d p by blast
        then show False using None by simp
      qed
      then show ?thesis using None tail Cons by simp
    qed
  qed
qed

lemma mention_word_prefix:
  "\<forall>x\<in>set w. re_word x \<Longrightarrow> re_sub mention_match (w @ q) = w @ re_sub mention_match q"
proof (induction w)
  case Nil
  show ?case by simp
next
  case (Cons x w)
  then have "x \<noteq> CHR ''@''" using at_char(1) by auto
  then have "mention_match (x # w @ q) = None" by (rule mention_match_not_at)
  then show ?case using Cons by simp
qed

lemma mention_pass_keeps_url:
  "unmatched url_match s \<Longrightarrow> unmatched url_match (re_sub mention_match s)"
proof (induction s rule: length_induct)
  case (1 s)
  show ?case
  proof (cases s)
    case Nil
    then show ?thesis by simp
  next
    case (Cons c cs)
    have uc: "url_match (c # cs) = None" and ucs: "unmatched url_match cs"
      using "1.prems" Cons by simp_all
    show ?thesis
    proof (cases "mention_match (c # cs)")
      case (Some n)
      have "length (dropWhile re_word cs) \<le> length cs" by (rule length_dropWhile_le)
      then have "length (dropWhile re_word cs) < length s" using Cons by simp
      moreover have "unmatched url_match (dropWhile re_word cs)"
        using ucs by (rule unmatched_dropWhile)
      ultimately have "unmatched url_match (re_sub mention_match (dropWhile re_word cs))"
        using 1(1) by blast
      then show ?thesis using mention_hit_step(1)[OF Some] Cons by simp
    next
      case None
      have tail: "unmatched url_match (re_sub mention_match cs)"
        using 1(1) ucs Cons by simp
      have "url_match (c # re_sub mention_match cs) = None"
      proof (rule ccontr)
        assume "url_match (c # re_sub mention_match cs) \<noteq> None"
        then obtain p r d where e: "c # re_sub mention_match cs = p @ r" and d: "\<not> isspace d"
          and p: "p = ''http'' @ [d] \<or> p = ''www'' @ [d]"
          unfolding url_match_None by blast
        obtain w where pw: "p = (c # w) @ [d]" and w: "\<forall>x\<in>set w. re_word x"
        proof -
          have "\<forall>x\<in>set ''ttp''. re_word x" "\<forall>x\<in>set ''ww''. re_word x"
            by (simp_all add: re_word_def isalnum_def)
          then show ?thesis using p e that by (elim disjE) auto
        qed
        have r: "re_sub mention_match cs = w @ (d # r)" using e pw by simp
        then obtain q' where q': "cs = w @ q'" using w mention_prefix by blast
        have "re_sub mention_match (w @ q') = w @ re_sub mention_match q'"
          using w by (rule mention_word_prefix)
        then have rq: "re_sub mention_match q' = d # r" using r q' by simp
        then obtain g q'' where g: "q' = g # q''" by (cases q') auto
        have "\<not> isspace g"
        proof
          assume sp: "isspace g"
          have "re_sub mention_match (g # q'') = g # re_sub mention_match q''"
            using token_local_mention sp by (rule re_sub_space_head)
          then have "g = d" using rq g by simp
          then show False using sp d by simp
        qed
        moreover have "c # cs = (c # w) @ g # q''" using q' g by simp
        ultimately have "\<exists>p r. c # cs = p @ r \<and>
            (\<exists>d. \<not> isspace d \<and> (p = ''http'' @ [d] \<or> p = ''www'' @ [d]))"
          using p pw by (intro exI[of _ "(c # w) @ [g]"] exI[of _ q'']) auto
        then have "url_match (c # cs) \<noteq> None" unfolding url_match_None .
        then show False using uc by simp
      qed
      then show ?thesis using None tail Cons by simp
    qed
  qed
qed

lemma no_hash_unmatched: "CHR ''#'' \<notin> set s \<Longrightarrow> unmatched hash_match s"
  by (induction s) (auto simp: hash_match_def)

lemma clean_text_fixed:
  assumes "unmatched url_match z" and "unmatched mention_match z" and "unmatched hash_match z"
  shows "clean_text z = py_join '' '' (py_split z)"
  using assms by (simp add: clean_text_def unmatched_id)

lemma hash_match_Cons: "hash_match (c # cs) = (if c = CHR ''#'' then Some 1 else None)"
  by (simp add: hash_match_def)

lemma hash_pass_unmatched: "unmatched hash_match (re_sub hash_match s)"
  by (induction s) (simp_all add: hash_match_Cons)

lemma unmatched_hash_no_hash: "unmatched hash_match s \<Longrightarrow> CHR ''#'' \<notin> set s"
  by (induction s) (auto simp: hash_match_Cons split: if_splits)

lemma clean_text_hash_unmatched: "unmatched hash_match (clean_text x)"
proof -
  have "unmatched hash_match (re_sub hash_match (re_sub mention_match (re_sub url_match x)))"
    by (rule hash_pass_unmatched)
  then have "unmatched hash_match (py_join '' '' (py_split
      (re_sub hash_match (re_sub mention_match (re_sub url_match x)))))"
    using unmatched_normalize[OF token_local_hash] by simp
  then show ?thesis by (simp add: clean_text_def)
qed

lemma clean_text_split:
  "py_join '' '' (py_split (clean_text x)) = clean_text x"
proof -
  define y where "y = re_sub hash_match (re_sub mention_match (re_sub url_match x))"
  have c: "clean_text x = py_join '' '' (py_split y)"
    by (simp add: clean_text_def y_def)
  have "py_split (py_join '' '' (py_split y)) = py_split y"
    using py_split_tokens by (rule py_split_join)
  then show ?thesis unfolding c by simp
qed

lemma clean_text_without_hash_unmatched:
  assumes "CHR ''#'' \<notin> set y"
  shows "unmatched url_match (clean_text y) \<and> unmatched mention_match (clean_text y)"
proof -
  define a where "a = re_sub url_match y"
  define b where "b = re_sub mention_match a"
  have "set b \<subseteq> set y"
    unfolding b_def a_def using set_re_sub[of mention_match] set_re_sub[of url_match y] by blast
  then have "CHR ''#'' \<notin> set b" using assms by blast
  then have hb: "unmatched hash_match b" by (rule no_hash_unmatched)
  have ub: "unmatched url_match b"
    unfolding b_def a_def by (rule mention_pass_keeps_url) (rule url_pass_unmatched)
  have mb: "unmatched mention_match b"
    unfolding b_def by (rule mention_pass_unmatched)
  have c: "clean_text y = py_join '' '' (py_split b)"
    using hb by (simp add: clean_text_def b_def a_def unmatched_id)
  show ?thesis
    unfolding c
    using ub mb unmatched_normalize[OF token_local_url, of b]
      unmatched_normalize[OF token_local_mention, of b] by simp
qed

text \<open>
  Claim C3, as amended: \<open>clean_text (clean_text x)\<close> equals \<open>clean_text x\<close> exactly
  when the cleaned text \<open>clean_text x\<close> holds no match of the URL pattern and no match
  of the mention pattern; this is so for every \<open>x\<close> without a \<open>#\<close> character.
\<close>

theorem clean_text_idempotent_iff:
  "(clean_text (clean_text x) = clean_text x) =
     (unmatched url_match (clean_text x) \<and> unmatched mention_match (clean_text x)) \<and>
   (CHR ''#'' \<notin> set x \<longrightarrow> clean_text (clean_text x) = clean_text x)"
proof -
  define z where "z = clean_text x"
  have hz: "unmatched hash_match z" unfolding z_def by (rule clean_text_hash_unmatched)
  have nz: "CHR ''#'' \<notin> set z" using hz by (rule unmatched_hash_no_hash)
  have wz: "py_join '' '' (py_split z) = z" unfolding z_def by (rule clean_text_split)
  have 1: "clean_text z = z" if "unmatched url_match z" and "unmatched mention_match z"
    using clean_text_fixed[OF that hz] wz by simp
  have 2: "unmatched url_match z \<and> unmatched mention_match z" if "clean_text z = z"
    using clean_text_without_hash_unmatched[OF nz] that by simp
  have 3: "unmatched url_match z \<and> unmatched mention_match z" if "CHR ''#'' \<notin> set x"
    unfolding z_def using that by (rule clean_text_without_hash_unmatched)
  show ?thesis
    using 1 2 3 unfolding z_def by blast
qed

lemma clean_text_mention_hash: "clean_text ''@#bob'' = ''@bob''"
  by code_simp

lemma clean_text_mention: "clean_text ''@bob'' = ''''"
  by code_simp

text \<open>
  Claim C3 as stated fails: in \<open>@#bob\<close> the mention pattern finds no word character
  behind the \<open>@\<close>, the \<open>#\<close> is then removed, and the result \<open>@bob\<close> is a mention that
  a second cleaning removes.
\<close>

theorem clean_text_idempotent_counterexample:
  "clean_text ''@#bob'' = ''@bob'' \<and> clean_text (clean_text ''@#bob'') = '''' \<and>
   clean_text (clean_text ''@#bob'') \<noteq> clean_text ''@#bob''"
  by (simp add: clean_text_mention_hash clean_text_mention)

lemma clean_text_hashtags:
  "clean_text ''I love #python #great'' = ''I love python great''"
  by code_simp

lemma clean_text_plain:
  "clean_text ''I love python great'' = ''I love python great''"
  by code_simp

text \<open>A text with two hashtags, and a text with a URL and a mention and no hashtag.\<close>

theorem clean_text_idempotent_iff_witness:
  "clean_text (clean_text ''I love #python #great'') = clean_text ''I love #python #great'' \<and>
   unmatched url_match (clean_text ''I love #python #great'') \<and>
   unmatched mention_match (clean_text ''I love #python #great'') \<and>
   CHR ''#'' \<notin> set ''Check http://x.co @bob great'' \<and>
   clean_text (clean_text ''Check http://x.co @bob great'') =
   clean_text ''Check http://x.co @bob great''"
proof -
  have i: "clean_text (clean_text ''I love #python #great'') = clean_text ''I love #python #great''"
    by (simp add: clean_text_hashtags clean_text_plain)
  have h: "CHR ''#'' \<notin> set ''Check http://x.co @bob great''" by simp
  show ?thesis
    using i h clean_text_idempotent_iff[of "''I love #python #great''"]
      clean_text_idempotent_iff[of "''Check http://x.co @bob great''"]
    by blast
qed

end
